theory Spec2Isabelle
  imports Complex_Main "HOL-Library.List_Lexorder" "HOL-Library.Multiset"
begin

section \<open>Python strings\<close>

text \<open>
  A Python \<^verbatim>\<open>str\<close> is a sequence of Unicode code points: \<^verbatim>\<open>len\<close> counts code points,
  slicing cuts at code points and \<^verbatim>\<open>sorted\<close> compares code point by code point. A
  string is therefore a list of code points; \<open>cp\<close> turns an ASCII literal into one.
\<close>

type_synonym pystr = "nat list"

definition cp :: "string \<Rightarrow> pystr" where
  "cp s = map of_char s"

text \<open>
  The characters that \<^verbatim>\<open>str.strip()\<close> and \<^verbatim>\<open>str.split()\<close> (both without argument)
  treat as whitespace: TAB..CR, FS..US, SPACE, NEL, NBSP, OGHAM SPACE MARK,
  EN QUAD..HAIR SPACE, LINE and PARAGRAPH SEPARATOR, NARROW NBSP, MEDIUM
  MATHEMATICAL SPACE and IDEOGRAPHIC SPACE.
\<close>

definition isspace :: "nat \<Rightarrow> bool" where
  "isspace c \<longleftrightarrow>
     (9 \<le> c \<and> c \<le> 13) \<or> (28 \<le> c \<and> c \<le> 32) \<or> c = 133 \<or> c = 160 \<or> c = 5760 \<or>
     (8192 \<le> c \<and> c \<le> 8202) \<or> c = 8232 \<or> c = 8233 \<or> c = 8239 \<or> c = 8287 \<or>
     c = 12288"

definition strip :: "pystr \<Rightarrow> pystr" where
  "strip s = rev (dropWhile isspace (rev (dropWhile isspace s)))"

text \<open>
  \<^verbatim>\<open>s.split()\<close>: the maximal runs of non-whitespace characters of \<open>s\<close>, in order.
  \<open>split_from w s\<close> scans \<open>s\<close> with the word \<open>w\<close> read so far.
\<close>

fun split_from :: "pystr \<Rightarrow> pystr \<Rightarrow> pystr list" where
  "split_from w [] = (if w = [] then [] else [w])"
| "split_from w (c # cs) =
     (if isspace c then (if w = [] then split_from [] cs else w # split_from [] cs)
      else split_from (w @ [c]) cs)"

definition split :: "pystr \<Rightarrow> pystr list" where
  "split s = split_from [] s"

text \<open>\<^verbatim>\<open>sep.join(words)\<close>.\<close>

fun join :: "pystr \<Rightarrow> pystr list \<Rightarrow> pystr" where
  "join sep [] = []"
| "join sep [w] = w"
| "join sep (w # v # ws) = w @ sep @ join sep (v # ws)"

text \<open>
  \<^verbatim>\<open>s.lower()\<close> on the ASCII letters. The source only compares the result with
  \<^verbatim>\<open>"exit"\<close> and \<^verbatim>\<open>"quit"\<close>, and no other character lower-cases to one of their
  letters, so the other code points are left as they are.
\<close>

definition lower :: "pystr \<Rightarrow> pystr" where
  "lower s = map (\<lambda>c. if 65 \<le> c \<and> c \<le> 90 then c + 32 else c) s"

section \<open>app.py: snippet\<close>

text \<open>
  \<^verbatim>\<open>
  def snippet(text, n=280):
      t = " ".join(text.strip().split())
      return t if len(t) <= n else t[:n] + "..."      (the marker is U+2026)
  \<close>
\<close>

definition collapse :: "pystr \<Rightarrow> pystr" where
  "collapse text = join [32] (split (strip text))"

definition snippet_n :: "pystr \<Rightarrow> nat \<Rightarrow> pystr" where
  "snippet_n text n = (let t = collapse text in if length t \<le> n then t else take n t @ [8230])"

definition snippet :: "pystr \<Rightarrow> pystr" where
  "snippet text = snippet_n text 280"

section \<open>Python values and errors\<close>

text \<open>
  Every exception the modelled code can raise is a value. \<open>SystemExit\<close> carries the
  ASCII part of the message given in the source (its leading emoji is left out).
  \<open>ParseError\<close> stands for what reading a file raises on content that is not of the
  expected kind (\<^verbatim>\<open>json.JSONDecodeError\<close> or the decoding error of a text that is not
  UTF-8, the \<^verbatim>\<open>RuntimeError\<close> of \<^verbatim>\<open>faiss.read_index\<close>). FAISS reports a file it cannot open
  as a \<^verbatim>\<open>RuntimeError\<close> too; the model names such a failure like the one \<^verbatim>\<open>open\<close> raises
  on the same path.
\<close>

datatype error =
    SystemExit string
  | FileExistsError pystr
  | FileNotFoundError pystr
  | IsADirectoryError pystr
  | UnicodeDecodeError pystr
  | ParseError pystr
  | AssertionError
  | IndexError
  | KeyError
  | TypeError
  | AttributeError
  | EOFError

text \<open>
  The values \<^verbatim>\<open>json.load\<close> returns, which are also the values \<^verbatim>\<open>json.dump\<close> is given:
  \<^verbatim>\<open>None\<close>, booleans, numbers, strings, lists and dicts with string keys. A dict is the
  list of its items, each key once.
\<close>

datatype json =
    JNull
  | JBool bool
  | JInt int
  | JFloat real
  | JStr pystr
  | JList "json list"
  | JDict "(pystr \<times> json) list"

text \<open>
  \<^verbatim>\<open>xs[i]\<close> on a Python list or string of length \<open>n\<close>: the indices \<open>0 .. n - 1\<close> read
  from the front, \<open>-n .. -1\<close> from the back, any other raises.
\<close>

definition getitem :: "'a list \<Rightarrow> int \<Rightarrow> error + 'a" where
  "getitem xs i =
     (if 0 \<le> i \<and> i < int (length xs) then Inr (xs ! nat i)
      else if i < 0 \<and> - int (length xs) \<le> i then Inr (xs ! nat (int (length xs) + i))
      else Inl IndexError)"

text \<open>
  \<^verbatim>\<open>v[i]\<close> for an integer \<open>i\<close> and \<^verbatim>\<open>v[key]\<close> for a string \<open>key\<close>, on a loaded value. A
  list and a string are indexed by integers, a string giving the string of one
  character; a dict has string keys only, so an integer is never one of them; the
  other values are not subscriptable.
\<close>

fun subscript_int :: "json \<Rightarrow> int \<Rightarrow> error + json" where
  "subscript_int (JList xs) i = getitem xs i"
| "subscript_int (JStr s) i = (case getitem s i of Inl e \<Rightarrow> Inl e | Inr c \<Rightarrow> Inr (JStr [c]))"
| "subscript_int (JDict items) i = Inl KeyError"
| "subscript_int v i = Inl TypeError"

fun subscript_str :: "json \<Rightarrow> pystr \<Rightarrow> error + json" where
  "subscript_str (JDict items) key =
     (case map_of items key of None \<Rightarrow> Inl KeyError | Some v \<Rightarrow> Inr v)"
| "subscript_str v key = Inl TypeError"

text \<open>\<^verbatim>\<open>os.path.join(a, b)\<close> for a relative \<open>b\<close>, and \<^verbatim>\<open>os.path.basename\<close> (POSIX).\<close>

definition path_join :: "pystr \<Rightarrow> pystr \<Rightarrow> pystr" where
  "path_join a b = a @ [47] @ b"

definition basename :: "pystr \<Rightarrow> pystr" where
  "basename p = rev (takeWhile (\<lambda>c. c \<noteq> 47) (rev p))"

section \<open>The FAISS flat inner-product index\<close>

text \<open>
  \<^verbatim>\<open>faiss\<close> is a library the repository calls. A score is a \<^verbatim>\<open>float32\<close>: a finite number,
  an infinity or not a number, compared the way the machine compares them (\<open><\<close> and
  \<open>==\<close>, both false of not a number). The inner
  product the library computes, with its rounding and its overflow, is the parameter
  \<open>fip\<close> of the search: nothing is assumed of it. The components of the vectors are
  reals.
\<close>

datatype f32 = NaN | NegInf | Fin real | PosInf

fun f32_less :: "f32 \<Rightarrow> f32 \<Rightarrow> bool" where
  "f32_less (Fin a) (Fin b) = (a < b)"
| "f32_less NegInf (Fin b) = True"
| "f32_less NegInf PosInf = True"
| "f32_less (Fin a) PosInf = True"
| "f32_less a b = False"

definition f32_eq :: "f32 \<Rightarrow> f32 \<Rightarrow> bool" where
  "f32_eq a b \<longleftrightarrow> a = b \<and> a \<noteq> NaN"

type_synonym vec = "real list"

record index =
  idx_d :: nat
  idx_xb :: "vec list"

definition ntotal :: "index \<Rightarrow> nat" where
  "ntotal idx = length (idx_xb idx)"

definition IndexFlatIP :: "nat \<Rightarrow> index" where
  "IndexFlatIP n = \<lparr>idx_d = n, idx_xb = []\<rparr>"

definition index_add :: "index \<Rightarrow> vec list \<Rightarrow> index" where
  "index_add idx xs = idx\<lparr>idx_xb := idx_xb idx @ xs\<rparr>"

text \<open>
  \<^verbatim>\<open>IndexFlatIP.search(x, k)\<close> answers each query row on its own with a heap of \<open>k\<close>
  slots, each holding a score and a row id and all holding the lowest \<^verbatim>\<open>float32\<close> and the
  id \<open>-1\<close> at first. The top of the heap is its least slot, a slot being less than
  another when its score is less or, the scores being equal, its id is less (\<open>cmp2\<close>).
  The rows are scored in order; a row replaces the top when the score at the top is less
  than the row's. At the end the slots are returned from the greatest to the least, so
  the slots never replaced come last. The heap is modelled by the list of its slots in
  ascending order. This is the path the library takes for fewer than 20 queries and
  \<open>k < 100\<close>; the repository asks for one query and \<open>k = 3\<close> or \<open>k \<le> 10\<close>. From
  \<open>k = 100\<close> on the library selects through a reservoir, which may keep other rows of a
  group of equal scores that \<open>k\<close> cuts; the model follows the heap there too. The Python
  wrapper asserts \<open>k > 0\<close> and that the query has the index's dimension.
\<close>

type_synonym hit = "f32 \<times> int"

definition FLT_LOWEST :: real where
  "FLT_LOWEST = - 340282346638528859811704183484516925440"

definition lowest_hit :: hit where
  "lowest_hit = (Fin FLT_LOWEST, - 1)"

definition cmp2 :: "hit \<Rightarrow> hit \<Rightarrow> bool" where
  "cmp2 a b \<longleftrightarrow> f32_less (fst a) (fst b) \<or> (f32_eq (fst a) (fst b) \<and> snd a < snd b)"

fun heap_insert :: "hit \<Rightarrow> hit list \<Rightarrow> hit list" where
  "heap_insert e [] = [e]"
| "heap_insert e (h # hs) = (if cmp2 e h then e # h # hs else h # heap_insert e hs)"

fun add_result :: "hit list \<Rightarrow> hit \<Rightarrow> hit list" where
  "add_result [] e = []"
| "add_result (least # rest) e =
     (if f32_less (fst least) (fst e) then heap_insert e rest else least # rest)"

definition knn :: "(vec \<Rightarrow> vec \<Rightarrow> f32) \<Rightarrow> vec list \<Rightarrow> vec \<Rightarrow> nat \<Rightarrow> hit list" where
  "knn fip xb x k =
     rev (foldl add_result (replicate k lowest_hit)
            (zip (map (fip x) xb) (map int [0..<length xb])))"

definition index_search ::
  "(vec \<Rightarrow> vec \<Rightarrow> f32) \<Rightarrow> index \<Rightarrow> vec list \<Rightarrow> nat \<Rightarrow>
     error + (f32 list list \<times> int list list)" where
  "index_search fip idx xq k =
     (if k = 0 \<or> (\<exists>x \<in> set xq. length x \<noteq> idx_d idx) then Inl AssertionError
      else Inr (map (\<lambda>x. map fst (knn fip (idx_xb idx) x k)) xq,
                map (\<lambda>x. map snd (knn fip (idx_xb idx) x k)) xq))"

section \<open>The file system\<close>

text \<open>
  The corpus directory \<^verbatim>\<open>./data\<close> is the list of its entries in the order in which
  the operating system happens to list them, each with what reading it gives. Every
  other path is looked up in a map. A file there is an index as \<^verbatim>\<open>faiss.write_index\<close>
  writes it, or a JSON text, given by the value it parses to, or \<open>Other\<close>: content that
  is neither, which no parser reads.
\<close>

datatype entry = Text pystr | Undecodable | Subdir

datatype node =
    Directory
  | IndexFile index
  | JsonFile json
  | Other

record filesystem =
  data_dir :: "(pystr \<times> entry) list"
  files :: "pystr \<rightharpoonup> node"

definition DATA_DIR :: pystr where "DATA_DIR = cp ''data''"
definition OUT_DIR :: pystr where "OUT_DIR = cp ''artifacts''"
definition INDEX_PATH :: pystr where "INDEX_PATH = cp ''artifacts/faiss.index''"
definition DOCS_PATH :: pystr where "DOCS_PATH = cp ''artifacts/docs.json''"

text \<open>\<^verbatim>\<open>os.makedirs(p, exist_ok=True)\<close>.\<close>

definition makedirs :: "filesystem \<Rightarrow> pystr \<Rightarrow> error + filesystem" where
  "makedirs fs p =
     (case files fs p of
        None \<Rightarrow> Inr (fs\<lparr>files := (files fs)(p \<mapsto> Directory)\<rparr>)
      | Some Directory \<Rightarrow> Inr fs
      | Some _ \<Rightarrow> Inl (FileExistsError p))"

text \<open>
  \<^verbatim>\<open>glob.glob("data/*.txt")\<close>: the entries of the directory whose name ends in
  \<^verbatim>\<open>.txt\<close> and does not start with a dot, as paths, in listing order.
\<close>

definition endswith :: "pystr \<Rightarrow> pystr \<Rightarrow> bool" where
  "endswith s suffix \<longleftrightarrow>
     length suffix \<le> length s \<and> drop (length s - length suffix) s = suffix"

definition match_txt :: "pystr \<Rightarrow> bool" where
  "match_txt name \<longleftrightarrow> take 1 name \<noteq> [46] \<and> 47 \<notin> set name \<and> endswith name (cp ''.txt'')"

definition glob_txt :: "pystr \<Rightarrow> (pystr \<times> entry) list \<Rightarrow> pystr list" where
  "glob_txt dir entries = map (path_join dir) (filter match_txt (map fst entries))"

text \<open>\<^verbatim>\<open>open(p, "r", encoding="utf-8").read()\<close> for a path in the corpus directory.\<close>

definition read_text :: "(pystr \<times> entry) list \<Rightarrow> pystr \<Rightarrow> error + pystr" where
  "read_text entries p =
     (case map_of (map (\<lambda>(name, e). (path_join DATA_DIR name, e)) entries) p of
        None \<Rightarrow> Inl (FileNotFoundError p)
      | Some Subdir \<Rightarrow> Inl (IsADirectoryError p)
      | Some Undecodable \<Rightarrow> Inl (UnicodeDecodeError p)
      | Some (Text t) \<Rightarrow> Inr t)"

text \<open>Writing a file (\<^verbatim>\<open>faiss.write_index\<close>, or \<^verbatim>\<open>open(p, "w")\<close> and \<^verbatim>\<open>json.dump\<close>).\<close>

definition write_file :: "filesystem \<Rightarrow> pystr \<Rightarrow> node \<Rightarrow> error + filesystem" where
  "write_file fs p content =
     (if files fs p = Some Directory then Inl (IsADirectoryError p)
      else Inr (fs\<lparr>files := (files fs)(p \<mapsto> content)\<rparr>))"

text \<open>
  \<^verbatim>\<open>faiss.read_index(p)\<close> reads an index file only. \<^verbatim>\<open>json.load(open(p))\<close> reads every
  JSON text, whatever the shape of its value.
\<close>

definition read_index :: "filesystem \<Rightarrow> pystr \<Rightarrow> error + index" where
  "read_index fs p =
     (case files fs p of
        None \<Rightarrow> Inl (FileNotFoundError p)
      | Some Directory \<Rightarrow> Inl (IsADirectoryError p)
      | Some (IndexFile idx) \<Rightarrow> Inr idx
      | Some _ \<Rightarrow> Inl (ParseError p))"

definition json_load :: "filesystem \<Rightarrow> pystr \<Rightarrow> error + json" where
  "json_load fs p =
     (case files fs p of
        None \<Rightarrow> Inl (FileNotFoundError p)
      | Some Directory \<Rightarrow> Inl (IsADirectoryError p)
      | Some (JsonFile v) \<Rightarrow> Inr v
      | Some _ \<Rightarrow> Inl (ParseError p))"

section \<open>index_build.py: main\<close>

text \<open>
  The loop over the sorted paths: a file that strips to empty adds nothing, any other
  adds its text to \<open>docs\<close> and the dict of its file name to \<open>meta\<close>; a failing read
  ends the run.
\<close>

fun read_docs ::
  "(pystr \<times> entry) list \<Rightarrow> pystr list \<Rightarrow> pystr list \<Rightarrow> json list \<Rightarrow>
     error + (pystr list \<times> json list)" where
  "read_docs entries [] docs meta = Inr (docs, meta)"
| "read_docs entries (p # ps) docs meta =
     (case read_text entries p of
        Inl e \<Rightarrow> Inl e
      | Inr raw \<Rightarrow>
          (let text = strip raw
           in if text \<noteq> []
              then read_docs entries ps (docs @ [text])
                     (meta @ [JDict [(cp ''source'', JStr (basename p))]])
              else read_docs entries ps docs meta))"

text \<open>\<^verbatim>\<open>embeddings.shape[1]\<close> of the matrix the embedder returns.\<close>

definition shape1 :: "vec list \<Rightarrow> nat" where
  "shape1 m = (case m of [] \<Rightarrow> 0 | v # _ \<Rightarrow> length v)"

text \<open>
  A store is what the build holds in memory when it ends and what a loader returns:
  the index, the documents and the metadata, the last two as the values they are (after
  a build, a list of strings and a list of dicts).
\<close>

type_synonym store = "index \<times> json \<times> json"

text \<open>
  \<open>build\<close> is \<^verbatim>\<open>main()\<close> of \<^verbatim>\<open>index_build.py\<close>. The embedder \<^verbatim>\<open>model.encode\<close> is the
  parameter \<open>encode\<close>. The result is the file system the run leaves behind, and either
  the exception it ended with or the store it built.
\<close>

definition build ::
  "(pystr list \<Rightarrow> vec list) \<Rightarrow> filesystem \<Rightarrow> filesystem \<times> (error + store)" where
  "build encode fs =
     (case makedirs fs OUT_DIR of
        Inl e \<Rightarrow> (fs, Inl e)
      | Inr fs0 \<Rightarrow>
          (let paths = sort (glob_txt DATA_DIR (data_dir fs0))
           in if paths = [] then (fs0, Inl (SystemExit ''No .txt files found in ./data''))
              else
                (case read_docs (data_dir fs0) paths [] [] of
                   Inl e \<Rightarrow> (fs0, Inl e)
                 | Inr (docs, meta) \<Rightarrow>
                     if docs = [] then (fs0, Inl (SystemExit ''Documents are empty''))
                     else
                       (let embeddings = encode docs;
                            index = index_add (IndexFlatIP (shape1 embeddings)) embeddings
                        in case write_file fs0 (path_join OUT_DIR (cp ''faiss.index''))
                                  (IndexFile index) of
                             Inl e \<Rightarrow> (fs0, Inl e)
                           | Inr fs1 \<Rightarrow>
                               (case write_file fs1 (path_join OUT_DIR (cp ''docs.json''))
                                       (JsonFile (JList (map JStr docs))) of
                                  Inl e \<Rightarrow> (fs1, Inl e)
                                | Inr fs2 \<Rightarrow>
                                    (case write_file fs2 (path_join OUT_DIR (cp ''meta.json''))
                                            (JsonFile (JList meta)) of
                                       Inl e \<Rightarrow> (fs2, Inl e)
                                     | Inr fs3 \<Rightarrow>
                                         (fs3, Inr (index, JList (map JStr docs),
                                                    JList meta))))))))"

section \<open>app.py\<close>

text \<open>\<^verbatim>\<open>load_data()\<close>: the three artifacts, read in this order, nothing compared.\<close>

definition load_data :: "filesystem \<Rightarrow> error + store" where
  "load_data fs =
     (case read_index fs (OUT_DIR @ cp ''/faiss.index'') of
        Inl e \<Rightarrow> Inl e
      | Inr index \<Rightarrow>
          (case json_load fs (OUT_DIR @ cp ''/docs.json'') of
             Inl e \<Rightarrow> Inl e
           | Inr docs \<Rightarrow>
               (case json_load fs (OUT_DIR @ cp ''/meta.json'') of
                  Inl e \<Rightarrow> Inl e
                | Inr meta \<Rightarrow> Inr (index, docs, meta))))"

text \<open>
  \<^verbatim>\<open>snippet(docs[idx])\<close> on a loaded value: \<^verbatim>\<open>text.strip()\<close> exists on strings only.
\<close>

fun snippet_of :: "json \<Rightarrow> error + pystr" where
  "snippet_of (JStr text) = Inr (snippet text)"
| "snippet_of v = Inl AttributeError"

text \<open>
  The result loop of the page: for each pair of \<^verbatim>\<open>zip(scores[0], ids[0])\<close> the rank,
  \<^verbatim>\<open>meta[idx]['source']\<close> (shown whatever value it is), the score and
  \<^verbatim>\<open>snippet(docs[idx])\<close>.
\<close>

type_synonym app_row = "nat \<times> json \<times> f32 \<times> pystr"

fun render_app :: "json \<Rightarrow> json \<Rightarrow> nat \<Rightarrow> hit list \<Rightarrow> error + app_row list" where
  "render_app docs meta rank [] = Inr []"
| "render_app docs meta rank ((score, idx) # rest) =
     (case subscript_int meta idx of
        Inl e \<Rightarrow> Inl e
      | Inr m \<Rightarrow>
          (case subscript_str m (cp ''source'') of
             Inl e \<Rightarrow> Inl e
           | Inr source \<Rightarrow>
               (case subscript_int docs idx of
                  Inl e \<Rightarrow> Inl e
                | Inr doc \<Rightarrow>
                    (case snippet_of doc of
                       Inl e \<Rightarrow> Inl e
                     | Inr shown \<Rightarrow>
                         (case render_app docs meta (rank + 1) rest of
                            Inl e \<Rightarrow> Inl e
                          | Inr rows \<Rightarrow> Inr ((rank, source, score, shown) # rows))))))"

datatype app_outcome = Info | Rows "app_row list" | AppRaised error

text \<open>
  One run of the page script with the text box holding \<open>query\<close> and the slider at
  \<open>top_k\<close>. The result is the store after the run, the batches passed to the embedder,
  in order, and what the page shows.
\<close>

definition app_run ::
  "(pystr list \<Rightarrow> vec list) \<Rightarrow> (vec \<Rightarrow> vec \<Rightarrow> f32) \<Rightarrow> store \<Rightarrow> pystr \<Rightarrow> nat \<Rightarrow>
     store \<times> pystr list list \<times> app_outcome" where
  "app_run encode fip st query top_k =
     (case st of (index, docs, meta) \<Rightarrow>
        if query \<noteq> []
        then
          (let q_emb = encode [query]
           in (st, [[query]],
               (case index_search fip index q_emb top_k of
                  Inl e \<Rightarrow> AppRaised e
                | Inr (scores, ids) \<Rightarrow>
                    (case getitem scores 0 of
                       Inl e \<Rightarrow> AppRaised e
                     | Inr scores0 \<Rightarrow>
                         (case getitem ids 0 of
                            Inl e \<Rightarrow> AppRaised e
                          | Inr ids0 \<Rightarrow>
                              (case render_app docs meta 1 (zip scores0 ids0) of
                                 Inl e \<Rightarrow> AppRaised e
                               | Inr rows \<Rightarrow> Rows rows))))))
        else (st, [], Info))"

section \<open>search.py: main\<close>

text \<open>The command-line tool reads the index and the documents only.\<close>

definition search_load :: "filesystem \<Rightarrow> error + (index \<times> json)" where
  "search_load fs =
     (case read_index fs INDEX_PATH of
        Inl e \<Rightarrow> Inl e
      | Inr index \<Rightarrow>
          (case json_load fs DOCS_PATH of
             Inl e \<Rightarrow> Inl e
           | Inr docs \<Rightarrow> Inr (index, docs)))"

text \<open>\<^verbatim>\<open>docs[idx][:160] + ("..." if len(docs[idx]) > 160 else "")\<close> on a string.\<close>

definition preview :: "pystr \<Rightarrow> pystr" where
  "preview doc = take 160 doc @ (if length doc > 160 then cp ''...'' else [])"

text \<open>
  The same expression on a loaded value: a list can be sliced but not joined to a
  string, and no other value can be sliced. Both are a \<^verbatim>\<open>TypeError\<close> (from Python 3.12
  on, slicing a dict is a \<^verbatim>\<open>KeyError\<close> instead; nothing below depends on which).
\<close>

fun preview_of :: "json \<Rightarrow> error + pystr" where
  "preview_of (JStr doc) = Inr (preview doc)"
| "preview_of v = Inl TypeError"

fun render_cli :: "json \<Rightarrow> nat \<Rightarrow> int list \<Rightarrow> error + (nat \<times> pystr) list" where
  "render_cli docs rank [] = Inr []"
| "render_cli docs rank (idx # rest) =
     (case subscript_int docs idx of
        Inl e \<Rightarrow> Inl e
      | Inr doc \<Rightarrow>
          (case preview_of doc of
             Inl e \<Rightarrow> Inl e
           | Inr shown \<Rightarrow>
               (case render_cli docs (rank + 1) rest of
                  Inl e \<Rightarrow> Inl e
                | Inr lines \<Rightarrow> Inr ((rank, shown) # lines))))"

datatype cli_outcome = Exiting | Results "(nat \<times> pystr) list" | Raised error

text \<open>
  One pass of the \<^verbatim>\<open>while True\<close> loop on the input line \<open>line\<close>: the store after the
  pass, the batches passed to the embedder, and what happened.
\<close>

definition cli_query ::
  "(pystr list \<Rightarrow> vec list) \<Rightarrow> (vec \<Rightarrow> vec \<Rightarrow> f32) \<Rightarrow> index \<Rightarrow> json \<Rightarrow> pystr \<Rightarrow>
     json \<times> pystr list list \<times> cli_outcome" where
  "cli_query encode fip index docs line =
     (let query = strip line
      in if lower query = cp ''exit'' \<or> lower query = cp ''quit'' then (docs, [], Exiting)
         else
           (let q_emb = encode [query]
            in (docs, [[query]],
                (case index_search fip index q_emb 3 of
                   Inl e \<Rightarrow> Raised e
                 | Inr (scores, ids) \<Rightarrow>
                     (case getitem ids 0 of
                        Inl e \<Rightarrow> Raised e
                      | Inr ids0 \<Rightarrow>
                          (case render_cli docs 1 ids0 of
                             Inl e \<Rightarrow> Raised e
                           | Inr lines \<Rightarrow> Results lines))))))"

text \<open>
  The loop over the lines typed at the prompt: it ends at \<^verbatim>\<open>exit\<close>, at the first
  exception, or with \<open>EOFError\<close> when the input ends.
\<close>

fun search_loop ::
  "(pystr list \<Rightarrow> vec list) \<Rightarrow> (vec \<Rightarrow> vec \<Rightarrow> f32) \<Rightarrow> index \<Rightarrow> json \<Rightarrow> pystr list \<Rightarrow>
     pystr list list \<times> cli_outcome list" where
  "search_loop encode fip index docs [] = ([], [Raised EOFError])"
| "search_loop encode fip index docs (line # rest) =
     (case cli_query encode fip index docs line of
        (docs', calls, Results lines) \<Rightarrow>
          (case search_loop encode fip index docs' rest of
             (calls', outs) \<Rightarrow> (calls @ calls', Results lines # outs))
      | (docs', calls, out) \<Rightarrow> (calls, [out]))"

definition search_main ::
  "(pystr list \<Rightarrow> vec list) \<Rightarrow> (vec \<Rightarrow> vec \<Rightarrow> f32) \<Rightarrow> filesystem \<Rightarrow> pystr list \<Rightarrow>
     pystr list list \<times> cli_outcome list" where
  "search_main encode fip fs lines =
     (case search_load fs of
        Inl e \<Rightarrow> ([], [Raised e])
      | Inr (index, docs) \<Rightarrow> search_loop encode fip index docs lines)"

section \<open>What the specification asks of a result list and of a preview\<close>

text \<open>
  The specification's order on results: strictly descending by score, and results of
  equal score in strictly ascending row order.
\<close>

definition spec_ranked :: "hit list \<Rightarrow> bool" where
  "spec_ranked res \<longleftrightarrow>
     sorted_wrt (\<lambda>a b. f32_less (fst b) (fst a) \<or> (fst a = fst b \<and> snd a < snd b)) res"

text \<open>
  The specification's words for a text with its whitespace collapsed: it neither
  starts nor ends with whitespace, and each whitespace character in it is one space
  followed by a character that is not whitespace.
\<close>

fun single_spaced :: "pystr \<Rightarrow> bool" where
  "single_spaced [] = True"
| "single_spaced [c] = (\<not> isspace c)"
| "single_spaced (c # d # cs) =
     ((\<not> isspace c \<or> (c = 32 \<and> \<not> isspace d)) \<and> single_spaced (d # cs))"

fun spec_collapsed :: "pystr \<Rightarrow> bool" where
  "spec_collapsed [] = True"
| "spec_collapsed (c # cs) = (\<not> isspace c \<and> single_spaced (c # cs))"

section \<open>Notions used to state the properties of the search and of the build\<close>

text \<open>
  A score above the lowest \<^verbatim>\<open>float32\<close>: the scores with which a row can replace a slot
  that was never filled.
\<close>

definition above :: "f32 \<Rightarrow> bool" where
  "above s = f32_less (Fin FLT_LOWEST) s"

text \<open>The \<open>paths\<close> of a build: the sorted listing of the corpus directory.\<close>

definition corpus_paths :: "filesystem \<Rightarrow> pystr list" where
  "corpus_paths fs = sort (glob_txt DATA_DIR (data_dir fs))"

text \<open>Whether a listed path can be read, and the stripped text it then gives.\<close>

definition readable :: "(pystr \<times> entry) list \<Rightarrow> pystr \<Rightarrow> bool" where
  "readable entries p = (case read_text entries p of Inl e \<Rightarrow> False | Inr raw \<Rightarrow> True)"

definition stripped :: "(pystr \<times> entry) list \<Rightarrow> pystr \<Rightarrow> pystr" where
  "stripped entries p = (case read_text entries p of Inl e \<Rightarrow> [] | Inr raw \<Rightarrow> strip raw)"

text \<open>The three artifacts of a build, in the order in which it writes them.\<close>

definition artifact_paths :: "pystr list" where
  "artifact_paths =
     [path_join OUT_DIR (cp ''faiss.index''), path_join OUT_DIR (cp ''docs.json''),
      path_join OUT_DIR (cp ''meta.json'')]"

section \<open>Sample inputs\<close>

text \<open>
  Concrete indexes, an inner product, embedders, a store and file systems on which the
  theorems below are instantiated and evaluated. \<open>exact_ip\<close> is the inner product
  without rounding; \<open>const_encode\<close> gives every text the vector \<open>[1]\<close>, \<open>len_encode\<close>
  the vector of its length.
\<close>

definition exact_ip :: "vec \<Rightarrow> vec \<Rightarrow> f32" where
  "exact_ip x y = Fin (sum_list (map (\<lambda>(a, b). a * b) (zip x y)))"

definition one_row :: index where
  "one_row = \<lparr>idx_d = 1, idx_xb = [[1]]\<rparr>"

definition two_rows :: index where
  "two_rows = \<lparr>idx_d = 1, idx_xb = [[1], [2]]\<rparr>"

definition equal_rows :: index where
  "equal_rows = \<lparr>idx_d = 1, idx_xb = [[1], [1]]\<rparr>"

definition four_rows :: index where
  "four_rows = \<lparr>idx_d = 1, idx_xb = [[1], [1], [2], [0]]\<rparr>"

definition lowest_row :: index where
  "lowest_row = \<lparr>idx_d = 1, idx_xb = [[FLT_LOWEST]]\<rparr>"

definition no_rows :: index where
  "no_rows = \<lparr>idx_d = 1, idx_xb = []\<rparr>"

definition const_encode :: "pystr list \<Rightarrow> vec list" where
  "const_encode texts = map (\<lambda>t. [1]) texts"

definition len_encode :: "pystr list \<Rightarrow> vec list" where
  "len_encode texts = map (\<lambda>t. [real (length t)]) texts"

definition one_doc_store :: store where
  "one_doc_store =
     (one_row, JList [JStr (cp ''doc'')], JList [JDict [(cp ''source'', JStr (cp ''a.txt''))]])"

text \<open>
  A corpus of an empty file \<^verbatim>\<open>a.txt\<close> and a file \<^verbatim>\<open>b.txt\<close>, listed in two orders, the same
  corpus without the empty file, and a corpus of two files with text, listed with
  \<^verbatim>\<open>b.txt\<close> first and listed with \<^verbatim>\<open>a.txt\<close> first.
\<close>

definition corpus_ab :: filesystem where
  "corpus_ab =
     \<lparr>data_dir = [(cp ''b.txt'', Text (cp '' hello '')), (cp ''a.txt'', Text (cp ''  ''))],
      files = Map.empty\<rparr>"

definition corpus_ba :: filesystem where
  "corpus_ba =
     \<lparr>data_dir = [(cp ''a.txt'', Text (cp ''  '')), (cp ''b.txt'', Text (cp '' hello ''))],
      files = Map.empty\<rparr>"

definition corpus_b :: filesystem where
  "corpus_b = \<lparr>data_dir = [(cp ''b.txt'', Text (cp '' hello ''))], files = Map.empty\<rparr>"

definition corpus_two :: filesystem where
  "corpus_two =
     \<lparr>data_dir = [(cp ''b.txt'', Text (cp '' hello '')), (cp ''a.txt'', Text (cp ''doc''))],
      files = Map.empty\<rparr>"

definition corpus_two_listed :: filesystem where
  "corpus_two_listed =
     \<lparr>data_dir = [(cp ''a.txt'', Text (cp ''doc'')), (cp ''b.txt'', Text (cp '' hello ''))],
      files = Map.empty\<rparr>"

definition no_corpus :: filesystem where
  "no_corpus = \<lparr>data_dir = [], files = Map.empty\<rparr>"


definition blocked_out :: filesystem where
  "blocked_out = \<lparr>data_dir = [], files = [OUT_DIR \<mapsto> Other]\<rparr>"

text \<open>
  Artifact sets: one whose three row counts differ, one without metadata, one with an
  index only, one whose JSON files hold values of another shape than a build writes,
  what the build of \<open>corpus_ab\<close> and of \<open>corpus_two\<close> leaves, and the store that the
  build of \<open>corpus_two\<close> holds.
\<close>

definition mismatched :: filesystem where
  "mismatched =
     \<lparr>data_dir = [],
      files = [OUT_DIR \<mapsto> Directory,
               cp ''artifacts/faiss.index'' \<mapsto> IndexFile two_rows,
               cp ''artifacts/docs.json'' \<mapsto> JsonFile (JList [JStr (cp ''doc'')]),
               cp ''artifacts/meta.json'' \<mapsto> JsonFile (JList [])]\<rparr>"

definition no_meta :: filesystem where
  "no_meta =
     \<lparr>data_dir = [],
      files = [OUT_DIR \<mapsto> Directory,
               cp ''artifacts/faiss.index'' \<mapsto> IndexFile one_row,
               cp ''artifacts/docs.json'' \<mapsto> JsonFile (JList [JStr (cp ''doc'')])]\<rparr>"

definition index_only :: filesystem where
  "index_only =
     \<lparr>data_dir = [],
      files = [OUT_DIR \<mapsto> Directory, cp ''artifacts/faiss.index'' \<mapsto> IndexFile one_row]\<rparr>"

definition other_shape :: filesystem where
  "other_shape =
     \<lparr>data_dir = [],
      files = [OUT_DIR \<mapsto> Directory,
               cp ''artifacts/faiss.index'' \<mapsto> IndexFile one_row,
               cp ''artifacts/docs.json'' \<mapsto> JsonFile (JInt 7),
               cp ''artifacts/meta.json'' \<mapsto> JsonFile (JList [JStr (cp ''doc'')])]\<rparr>"

definition corpus_ab_built :: filesystem where
  "corpus_ab_built =
     corpus_ab\<lparr>files := [OUT_DIR \<mapsto> Directory,
                            cp ''artifacts/faiss.index'' \<mapsto> IndexFile one_row,
                            cp ''artifacts/docs.json'' \<mapsto> JsonFile (JList [JStr (cp ''hello'')]),
                            cp ''artifacts/meta.json'' \<mapsto>
                              JsonFile (JList [JDict [(cp ''source'', JStr (cp ''b.txt''))]])]\<rparr>"

definition corpus_two_built :: filesystem where
  "corpus_two_built =
     corpus_two\<lparr>files := [OUT_DIR \<mapsto> Directory,
                             cp ''artifacts/faiss.index'' \<mapsto>
                               IndexFile \<lparr>idx_d = 1, idx_xb = [[3], [5]]\<rparr>,
                             cp ''artifacts/docs.json'' \<mapsto>
                               JsonFile (JList [JStr (cp ''doc''), JStr (cp ''hello'')]),
                             cp ''artifacts/meta.json'' \<mapsto>
                               JsonFile (JList [JDict [(cp ''source'', JStr (cp ''a.txt''))],
                                                JDict [(cp ''source'', JStr (cp ''b.txt''))]])]\<rparr>"

definition two_docs :: store where
  "two_docs =
     (\<lparr>idx_d = 1, idx_xb = [[3], [5]]\<rparr>,
      JList [JStr (cp ''doc''), JStr (cp ''hello'')],
      JList [JDict [(cp ''source'', JStr (cp ''a.txt''))],
             JDict [(cp ''source'', JStr (cp ''b.txt''))]])"

section \<open>Properties of the index search\<close>

subsection \<open>The order of the scores\<close>

lemma f32_less_irrefl: "\<not> f32_less a a"
  by (cases a) simp_all

lemma f32_less_trans: "f32_less a b \<Longrightarrow> f32_less b c \<Longrightarrow> f32_less a c"
  by (cases a; cases b; cases c) simp_all

lemma f32_less_asym: "f32_less a b \<Longrightarrow> \<not> f32_less b a"
  using f32_less_irrefl f32_less_trans by blast

lemma f32_less_total: "a \<noteq> NaN \<Longrightarrow> b \<noteq> NaN \<Longrightarrow> f32_less a b \<or> a = b \<or> f32_less b a"
  by (cases a; cases b) auto

lemma above_not_NaN: "above s \<Longrightarrow> s \<noteq> NaN"
  by (cases s) (simp_all add: above_def)

lemma above_mono: "above a \<Longrightarrow> f32_less a b \<Longrightarrow> above b"
  unfolding above_def by (rule f32_less_trans)

lemma cmp2_irrefl: "\<not> cmp2 a a"
  by (simp add: cmp2_def f32_less_irrefl)

lemma cmp2_trans: "cmp2 a b \<Longrightarrow> cmp2 b c \<Longrightarrow> cmp2 a c"
  by (auto simp: cmp2_def f32_eq_def intro: f32_less_trans)

lemma cmp2_total:
  "above (fst a) \<Longrightarrow> above (fst b) \<Longrightarrow> a \<noteq> b \<Longrightarrow> cmp2 a b \<or> cmp2 b a"
  using f32_less_total [of "fst a" "fst b"] above_not_NaN [of "fst a"] above_not_NaN [of "fst b"]
  by (auto simp: cmp2_def f32_eq_def prod_eq_iff)

lemma cmp2_lowest: "above (fst e) \<Longrightarrow> \<not> cmp2 e lowest_hit"
  unfolding cmp2_def f32_eq_def lowest_hit_def above_def
  using f32_less_asym f32_less_irrefl by fastforce

lemma above_not_lowest: "above (fst e) \<Longrightarrow> e \<noteq> lowest_hit"
  by (auto simp: above_def lowest_hit_def f32_less_irrefl)

subsection \<open>The heap\<close>

lemma mset_heap_insert: "mset (heap_insert e hs) = add_mset e (mset hs)"
  by (induction hs) simp_all

lemma set_heap_insert: "set (heap_insert e hs) = insert e (set hs)"
  by (induction hs) auto

lemma length_heap_insert: "length (heap_insert e hs) = Suc (length hs)"
  by (induction hs) simp_all

lemma sorted_heap_insert:
  assumes "sorted_wrt cmp2 hs" and "\<forall>h \<in> set hs. above (fst h)" and "above (fst e)"
    and "e \<notin> set hs"
  shows "sorted_wrt cmp2 (heap_insert e hs)"
  using assms
proof (induction hs)
  case Nil
  then show ?case by simp
next
  case (Cons h hs)
  show ?case
  proof (cases "cmp2 e h")
    case True
    then have "\<forall>y \<in> set hs. cmp2 e y"
      using Cons.prems(1) cmp2_trans by auto
    then show ?thesis using True Cons.prems(1) by simp
  next
    case False
    then have "cmp2 h e"
      using cmp2_total [of e h] Cons.prems by auto
    moreover have "sorted_wrt cmp2 (heap_insert e hs)"
      using Cons by simp
    ultimately show ?thesis
      using False Cons.prems(1) by (auto simp: set_heap_insert)
  qed
qed

lemma heap_insert_lowest:
  "above (fst e) \<Longrightarrow>
     heap_insert e (replicate q lowest_hit @ hs) = replicate q lowest_hit @ heap_insert e hs"
  by (induction q) (simp_all add: cmp2_lowest)

lemma sorted_distinct: "sorted_wrt cmp2 hs \<Longrightarrow> distinct hs"
  by (induction hs) (auto simp: cmp2_irrefl)

lemma distinct_heap_insert:
  "distinct (map snd (heap_insert e hs @ es)) = distinct (map snd (hs @ e # es))"
  by (rule mset_eq_imp_distinct_iff) (simp add: mset_heap_insert)

text \<open>
  Scoring a list of entries, whose ids are new, into a heap that holds \<open>p\<close> untouched
  slots and the entries \<open>hs\<close>.
\<close>

lemma fold_heap:
  assumes "sorted_wrt cmp2 hs" and "\<forall>h \<in> set hs. above (fst h)"
    and "distinct (map snd (hs @ es))"
  shows "\<exists>q hs'. foldl add_result (replicate p lowest_hit @ hs) es = replicate q lowest_hit @ hs' \<and>
           q + length hs' = p + length hs \<and> q \<le> p \<and> sorted_wrt cmp2 hs' \<and>
           (\<forall>h \<in> set hs'. above (fst h)) \<and> set hs' \<subseteq> set hs \<union> set es"
  using assms
proof (induction es arbitrary: p hs)
  case Nil
  then show ?case by auto
next
  case (Cons e es)
  note sorted = Cons.prems(1) and ab = Cons.prems(2) and dist = Cons.prems(3)
  have fresh: "e \<notin> set hs"
    using dist by (auto simp: image_iff)
  have rest: "distinct (map snd (hs @ es))"
    using dist by simp
  have unchanged: ?case
    if "add_result (replicate p lowest_hit @ hs) e = replicate p lowest_hit @ hs"
  proof -
    obtain q hs' where "foldl add_result (replicate p lowest_hit @ hs) es = replicate q lowest_hit @ hs'"
      "q + length hs' = p + length hs" "q \<le> p" "sorted_wrt cmp2 hs'"
      "\<forall>h \<in> set hs'. above (fst h)" "set hs' \<subseteq> set hs \<union> set es"
      using Cons.IH [OF sorted ab rest, of p] by blast
    then show ?thesis
      using that by (intro exI [of _ q] exI [of _ hs']) auto
  qed
  have inserted: ?case
    if step: "add_result (replicate p lowest_hit @ hs) e = replicate p' lowest_hit @ heap_insert e hs0"
      and p': "p' \<le> p" "p' + Suc (length hs0) = p + length hs"
      and hs0: "sorted_wrt cmp2 hs0" "set hs0 \<subseteq> set hs" "distinct (map snd (hs0 @ e # es))"
      and e: "above (fst e)"
    for p' hs0
  proof -
    have "sorted_wrt cmp2 (heap_insert e hs0)"
      using hs0 ab e fresh by (intro sorted_heap_insert) auto
    moreover have "\<forall>h \<in> set (heap_insert e hs0). above (fst h)"
      using hs0 ab e by (auto simp: set_heap_insert)
    moreover have "distinct (map snd (heap_insert e hs0 @ es))"
      using hs0(3) by (simp only: distinct_heap_insert)
    ultimately obtain q hs' where
      "foldl add_result (replicate p' lowest_hit @ heap_insert e hs0) es = replicate q lowest_hit @ hs'"
      "q + length hs' = p' + length (heap_insert e hs0)" "q \<le> p'" "sorted_wrt cmp2 hs'"
      "\<forall>h \<in> set hs'. above (fst h)" "set hs' \<subseteq> set (heap_insert e hs0) \<union> set es"
      using Cons.IH [of "heap_insert e hs0" p'] by blast
    then show ?thesis
      using step p' hs0(2)
      by (intro exI [of _ q] exI [of _ hs']) (auto simp: length_heap_insert set_heap_insert)
  qed
  show ?case
  proof (cases p)
    case (Suc p')
    show ?thesis
    proof (cases "above (fst e)")
      case True
      have "add_result (replicate p lowest_hit @ hs) e = heap_insert e (replicate p' lowest_hit @ hs)"
        using True Suc by (simp add: above_def lowest_hit_def)
      then have "add_result (replicate p lowest_hit @ hs) e = replicate p' lowest_hit @ heap_insert e hs"
        using True by (simp only: heap_insert_lowest)
      then show ?thesis
        using Suc sorted dist True by (intro inserted [of p' hs]) auto
    next
      case False
      then show ?thesis
        using Suc by (intro unchanged) (simp add: above_def lowest_hit_def)
    qed
  next
    case 0
    show ?thesis
    proof (cases hs)
      case Nil
      then show ?thesis
        using 0 by (intro unchanged) simp
    next
      case (Cons h hs0)
      show ?thesis
      proof (cases "f32_less (fst h) (fst e)")
        case True
        have "above (fst e)"
          using True ab Cons above_mono by auto
        moreover have "add_result (replicate p lowest_hit @ hs) e = replicate 0 lowest_hit @ heap_insert e hs0"
          using True 0 Cons by simp
        ultimately show ?thesis
          using 0 Cons sorted dist by (intro inserted [of 0 hs0]) auto
      next
        case False
        then show ?thesis
          using 0 Cons by (intro unchanged) simp
      qed
    qed
  qed
qed

lemma fold_heap_room:
  assumes "length es \<le> p"
  shows "\<exists>hs'. foldl add_result (replicate p lowest_hit @ hs) es =
             replicate (p - length (filter (\<lambda>e. above (fst e)) es)) lowest_hit @ hs' \<and>
           mset hs' = mset hs + mset (filter (\<lambda>e. above (fst e)) es)"
  using assms
proof (induction es arbitrary: p hs)
  case Nil
  then show ?case by simp
next
  case (Cons e es)
  then obtain p' where p: "p = Suc p'" "length es \<le> p'"
    by (cases p) auto
  show ?case
  proof (cases "above (fst e)")
    case True
    have "add_result (replicate p lowest_hit @ hs) e = heap_insert e (replicate p' lowest_hit @ hs)"
      using True p by (simp add: above_def lowest_hit_def)
    then have step: "add_result (replicate p lowest_hit @ hs) e = replicate p' lowest_hit @ heap_insert e hs"
      using True by (simp only: heap_insert_lowest)
    from Cons.IH [OF p(2), of "heap_insert e hs"] obtain hs' where
      "foldl add_result (replicate p' lowest_hit @ heap_insert e hs) es =
         replicate (p' - length (filter (\<lambda>e. above (fst e)) es)) lowest_hit @ hs'"
      "mset hs' = mset (heap_insert e hs) + mset (filter (\<lambda>e. above (fst e)) es)"
      by blast
    then show ?thesis
      using step True p by (intro exI [of _ hs']) (simp add: mset_heap_insert)
  next
    case False
    have step: "add_result (replicate p lowest_hit @ hs) e = replicate p lowest_hit @ hs"
      using False p by (simp add: above_def lowest_hit_def)
    from Cons.IH [of p hs] p obtain hs' where
      "foldl add_result (replicate p lowest_hit @ hs) es =
         replicate (p - length (filter (\<lambda>e. above (fst e)) es)) lowest_hit @ hs'"
      "mset hs' = mset hs + mset (filter (\<lambda>e. above (fst e)) es)"
      by auto
    then show ?thesis
      using step False by (intro exI [of _ hs']) simp
  qed
qed

lemma dropWhile_replicate_append:
  "\<forall>h \<in> set a. h \<noteq> l \<Longrightarrow> dropWhile (\<lambda>h. h = l) (replicate p l @ a) = a"
proof (induction p)
  case 0
  then show ?case by (cases a) simp_all
next
  case (Suc p)
  then show ?case by simp
qed

lemma replicate_append_unique:
  assumes "\<forall>h \<in> set a. h \<noteq> l" and "\<forall>h \<in> set b. h \<noteq> l"
    and "replicate p l @ a = replicate q l @ b"
  shows "a = b"
proof -
  have "a = dropWhile (\<lambda>h. h = l) (replicate p l @ a)"
    using assms(1) by (simp only: dropWhile_replicate_append)
  also have "\<dots> = dropWhile (\<lambda>h. h = l) (replicate q l @ b)"
    by (simp only: assms(3))
  also have "\<dots> = b"
    using assms(2) by (simp only: dropWhile_replicate_append)
  finally show ?thesis .
qed

lemma sorted_least:
  assumes "sorted_wrt cmp2 (h # hs0)" and "h1 \<in> set (h # hs0)"
  shows "\<not> f32_less (fst h1) (fst h)"
proof (cases "h1 = h")
  case True
  then show ?thesis by (simp add: f32_less_irrefl)
next
  case False
  then have "cmp2 h h1" using assms by auto
  then show ?thesis
    using f32_less_asym [of "fst h" "fst h1"] f32_less_irrefl [of "fst h"]
    by (auto simp: cmp2_def f32_eq_def)
qed

text \<open>What scoring one entry does to a heap of \<open>p\<close> untouched slots and the entries \<open>hs\<close>.\<close>

lemma add_result_cases:
  assumes "sorted_wrt cmp2 hs" and "\<forall>h \<in> set hs. above (fst h)"
  shows "(add_result (replicate p lowest_hit @ hs) e = replicate p lowest_hit @ hs \<and>
            (above (fst e) \<longrightarrow> p = 0 \<and> (\<forall>h \<in> set hs. \<not> f32_less (fst h) (fst e)))) \<or>
         (\<exists>p'. p = Suc p' \<and> above (fst e) \<and>
            add_result (replicate p lowest_hit @ hs) e = replicate p' lowest_hit @ heap_insert e hs) \<or>
         (\<exists>h hs0. p = 0 \<and> hs = h # hs0 \<and> f32_less (fst h) (fst e) \<and>
            add_result (replicate p lowest_hit @ hs) e = replicate 0 lowest_hit @ heap_insert e hs0)"
proof (cases p)
  case (Suc p')
  show ?thesis
  proof (cases "above (fst e)")
    case True
    have "add_result (replicate p lowest_hit @ hs) e = heap_insert e (replicate p' lowest_hit @ hs)"
      using True Suc by (simp add: above_def lowest_hit_def)
    then have "add_result (replicate p lowest_hit @ hs) e = replicate p' lowest_hit @ heap_insert e hs"
      using True by (simp only: heap_insert_lowest)
    then show ?thesis using True Suc by blast
  next
    case False
    then have "add_result (replicate p lowest_hit @ hs) e = replicate p lowest_hit @ hs"
      using Suc by (simp add: above_def lowest_hit_def)
    then show ?thesis using False by blast
  qed
next
  case 0
  show ?thesis
  proof (cases hs)
    case Nil
    then show ?thesis using 0 by simp
  next
    case (Cons h hs0)
    show ?thesis
    proof (cases "f32_less (fst h) (fst e)")
      case True
      then show ?thesis using 0 Cons by simp
    next
      case False
      have "\<not> f32_less (fst h1) (fst e)" if "h1 \<in> set hs" for h1
      proof
        assume l: "f32_less (fst h1) (fst e)"
        have "\<not> f32_less (fst h1) (fst h)"
          using assms(1) that unfolding Cons by (rule sorted_least)
        moreover have "fst h \<noteq> NaN" "fst h1 \<noteq> NaN"
          using assms(2) that Cons above_not_NaN by auto
        ultimately have "f32_less (fst h) (fst h1) \<or> fst h = fst h1"
          using f32_less_total by blast
        then have "f32_less (fst h) (fst e)"
          using l f32_less_trans by auto
        then show False using False by simp
      qed
      then show ?thesis using False 0 Cons by simp
    qed
  qed
qed

text \<open>
  An entry that scores above the lowest float and is not in the heap at the end was
  refused or replaced: every slot of the heap then holds an entry that does not score
  less.
\<close>

lemma fold_heap_best:
  assumes "sorted_wrt cmp2 hs" and "\<forall>h \<in> set hs. above (fst h)"
    and "distinct (map snd (hs @ es))"
  shows "(\<forall>b. above b \<and> p = 0 \<and> (\<forall>h \<in> set hs. \<not> f32_less (fst h) b) \<longrightarrow>
            (\<forall>h \<in> set (foldl add_result (replicate p lowest_hit @ hs) es). \<not> f32_less (fst h) b)) \<and>
         (\<forall>e \<in> set (hs @ es).
            above (fst e) \<and> e \<notin> set (foldl add_result (replicate p lowest_hit @ hs) es) \<longrightarrow>
            (\<forall>h \<in> set (foldl add_result (replicate p lowest_hit @ hs) es).
               \<not> f32_less (fst h) (fst e)))"
  using assms
proof (induction es arbitrary: p hs)
  case Nil
  then show ?case by auto
next
  case (Cons e es)
  note sorted = Cons.prems(1) and ab = Cons.prems(2) and dist = Cons.prems(3)
  let ?H = "foldl add_result (replicate p lowest_hit @ hs) (e # es)"
  have fresh: "e \<notin> set hs"
    using dist by (auto simp: image_iff)
  have rest: "distinct (map snd (hs @ es))"
    using dist by simp
  consider
    (unchanged) "add_result (replicate p lowest_hit @ hs) e = replicate p lowest_hit @ hs"
      "above (fst e) \<longrightarrow> p = 0 \<and> (\<forall>h \<in> set hs. \<not> f32_less (fst h) (fst e))"
  | (room) p' where "p = Suc p'" "above (fst e)"
      "add_result (replicate p lowest_hit @ hs) e = replicate p' lowest_hit @ heap_insert e hs"
  | (evict) h hs0 where "p = 0" "hs = h # hs0" "f32_less (fst h) (fst e)"
      "add_result (replicate p lowest_hit @ hs) e = replicate 0 lowest_hit @ heap_insert e hs0"
    using add_result_cases [OF sorted ab, of p e] by blast
  then show ?case
  proof cases
    case unchanged
    have H: "?H = foldl add_result (replicate p lowest_hit @ hs) es"
      using unchanged(1) by simp
    note IH = Cons.IH [OF sorted ab rest, of p]
    show ?thesis
      unfolding H using IH unchanged(2) by auto
  next
    case room
    have H: "?H = foldl add_result (replicate p' lowest_hit @ heap_insert e hs) es"
      using room(3) by simp
    have "sorted_wrt cmp2 (heap_insert e hs)"
      using sorted ab room(2) fresh by (intro sorted_heap_insert) auto
    moreover have "\<forall>h \<in> set (heap_insert e hs). above (fst h)"
      using ab room(2) by (auto simp: set_heap_insert)
    moreover have "distinct (map snd (heap_insert e hs @ es))"
      using dist by (simp only: distinct_heap_insert)
    ultimately have IH: "\<forall>e' \<in> set (heap_insert e hs @ es).
            above (fst e') \<and> e' \<notin> set (foldl add_result (replicate p' lowest_hit @ heap_insert e hs) es) \<longrightarrow>
            (\<forall>h \<in> set (foldl add_result (replicate p' lowest_hit @ heap_insert e hs) es).
               \<not> f32_less (fst h) (fst e'))"
      using Cons.IH [of "heap_insert e hs" p'] by blast
    show ?thesis
      unfolding H using IH room(1) by (auto simp: set_heap_insert)
  next
    case evict
    have H: "?H = foldl add_result (replicate 0 lowest_hit @ heap_insert e hs0) es"
      using evict(4) by simp
    have abe: "above (fst e)"
      using evict(2,3) ab above_mono by auto
    have "sorted_wrt cmp2 (heap_insert e hs0)"
      using sorted ab abe fresh evict(2) by (intro sorted_heap_insert) auto
    moreover have ab1: "\<forall>h \<in> set (heap_insert e hs0). above (fst h)"
      using ab abe evict(2) by (auto simp: set_heap_insert)
    moreover have "distinct (map snd (hs0 @ e # es))"
      using dist evict(2) by simp
    then have "distinct (map snd (heap_insert e hs0 @ es))"
      by (simp only: distinct_heap_insert)
    ultimately have IH:
      "\<forall>b. above b \<and> (0 :: nat) = 0 \<and> (\<forall>h \<in> set (heap_insert e hs0). \<not> f32_less (fst h) b) \<longrightarrow>
            (\<forall>h \<in> set (foldl add_result (replicate 0 lowest_hit @ heap_insert e hs0) es).
               \<not> f32_less (fst h) b)"
      "\<forall>e' \<in> set (heap_insert e hs0 @ es).
            above (fst e') \<and> e' \<notin> set (foldl add_result (replicate 0 lowest_hit @ heap_insert e hs0) es) \<longrightarrow>
            (\<forall>h \<in> set (foldl add_result (replicate 0 lowest_hit @ heap_insert e hs0) es).
               \<not> f32_less (fst h) (fst e'))"
      using Cons.IH [of "heap_insert e hs0" 0] by blast+
    have keep: "\<forall>h' \<in> set (heap_insert e hs0). \<not> f32_less (fst h') b"
      if "\<forall>h' \<in> set hs. \<not> f32_less (fst h') b" for b
    proof -
      have "\<not> f32_less (fst e) b"
      proof
        assume "f32_less (fst e) b"
        then have "f32_less (fst h) b"
          using evict(3) f32_less_trans by blast
        then show False using that evict(2) by simp
      qed
      then show ?thesis
        using that evict(2) by (auto simp: set_heap_insert)
    qed
    have least: "\<forall>h' \<in> set hs. \<not> f32_less (fst h') (fst h)"
      using sorted_least [of h hs0] sorted evict(2) by blast
    have A: "\<forall>b. above b \<and> p = 0 \<and> (\<forall>h \<in> set hs. \<not> f32_less (fst h) b) \<longrightarrow>
            (\<forall>h \<in> set ?H. \<not> f32_less (fst h) b)"
      unfolding H using IH(1) keep by blast
    have B: "\<forall>e' \<in> set (hs @ e # es). above (fst e') \<and> e' \<notin> set ?H \<longrightarrow>
            (\<forall>h \<in> set ?H. \<not> f32_less (fst h) (fst e'))"
    proof (rule ballI, rule impI)
      fix e' assume mem: "e' \<in> set (hs @ e # es)" and out: "above (fst e') \<and> e' \<notin> set ?H"
      show "\<forall>h \<in> set ?H. \<not> f32_less (fst h) (fst e')"
      proof (cases "e' = h")
        case True
        have "above (fst h)" using ab evict(2) by simp
        then show ?thesis
          unfolding True H using IH(1) keep [OF least] by blast
      next
        case False
        then have "e' \<in> set (heap_insert e hs0 @ es)"
          using mem evict(2) by (auto simp: set_heap_insert)
        then show ?thesis
          using out IH(2) unfolding H by blast
      qed
    qed
    show ?thesis using A B by blast
  qed
qed

subsection \<open>The result of a search\<close>

lemma scored_ids: "map snd (zip (map f xb) (map int [0..<length xb])) = map int [0..<length xb]"
  by simp

lemma scored_entry:
  "e \<in> set (zip (map f xb) (map int [0..<length xb])) \<Longrightarrow>
     0 \<le> snd e \<and> snd e < int (length xb) \<and> fst e = f (xb ! nat (snd e))"
proof -
  assume "e \<in> set (zip (map f xb) (map int [0..<length xb]))"
  then obtain j where "j < length xb" "e = (f (xb ! j), int j)"
    by (auto simp: in_set_zip)
  then show ?thesis by simp
qed

text \<open>
  The result of a search: first the rows that entered the heap, from the greatest to
  the least, then the slots that were never replaced.
\<close>

lemma knn_hits:
  "\<exists>hits. knn fip xb x k = hits @ replicate (k - length hits) lowest_hit \<and>
     length hits \<le> k \<and> length hits \<le> length xb \<and>
     sorted_wrt (\<lambda>a b. cmp2 b a) hits \<and> distinct (map snd hits) \<and>
     (\<forall>e \<in> set hits. above (fst e) \<and> 0 \<le> snd e \<and> snd e < int (length xb) \<and>
        fst e = fip x (xb ! nat (snd e)))"
proof -
  let ?es = "zip (map (fip x) xb) (map int [0..<length xb])"
  have d: "distinct (map snd ?es)"
    unfolding scored_ids by (simp add: distinct_map)
  then have "distinct (map snd ([] @ ?es))" by simp
  from fold_heap [of "[]" ?es k, OF _ _ this] obtain q hs where
    f: "foldl add_result (replicate k lowest_hit) ?es = replicate q lowest_hit @ hs"
    and q: "q + length hs = k" and s: "sorted_wrt cmp2 hs"
    and a: "\<forall>h \<in> set hs. above (fst h)" and sub: "set hs \<subseteq> set ?es"
    by auto
  have "inj_on snd (set ?es)" using d by (simp only: distinct_map)
  then have "inj_on snd (set hs)" using sub by (rule inj_on_subset)
  then have dh: "distinct (map snd hs)"
    using sorted_distinct [OF s] by (simp add: distinct_map)
  have "snd ` set hs \<subseteq> snd ` set ?es"
    using sub by (rule image_mono)
  then have "set (map snd hs) \<subseteq> set (map int [0..<length xb])"
    by (simp only: set_map [symmetric] scored_ids)
  then have "card (set (map snd hs)) \<le> card (set (map int [0..<length xb]))"
    by (intro card_mono) simp_all
  moreover have "card (set (map snd hs)) = length (map snd hs)"
    using dh by (rule distinct_card)
  moreover have "card (set (map int [0..<length xb])) = length (map int [0..<length xb])"
    by (rule distinct_card) (simp add: distinct_map)
  ultimately have len: "length hs \<le> length xb"
    by simp
  show ?thesis
  proof (intro exI [of _ "rev hs"] conjI)
    show "knn fip xb x k = rev hs @ replicate (k - length (rev hs)) lowest_hit"
      using f q by (auto simp: knn_def)
    show "length (rev hs) \<le> k" using q by simp
    show "length (rev hs) \<le> length xb" using len by simp
    show "sorted_wrt (\<lambda>a b. cmp2 b a) (rev hs)"
      using s by (simp add: sorted_wrt_rev)
    show "distinct (map snd (rev hs))"
      using dh by (simp add: rev_map [symmetric])
    show "\<forall>e \<in> set (rev hs). above (fst e) \<and> 0 \<le> snd e \<and> snd e < int (length xb) \<and>
        fst e = fip x (xb ! nat (snd e))"
    proof
      fix e assume "e \<in> set (rev hs)"
      then have "e \<in> set hs" by simp
      then show "above (fst e) \<and> 0 \<le> snd e \<and> snd e < int (length xb) \<and>
        fst e = fip x (xb ! nat (snd e))"
        using a sub scored_entry [of e "fip x" xb] by blast
    qed
  qed
qed

text \<open>With at least as many slots as rows, every row scoring above the lowest float is a hit.\<close>

lemma knn_room:
  assumes "length xb \<le> k"
    and "knn fip xb x k = hits @ replicate n lowest_hit" and "\<forall>e \<in> set hits. above (fst e)"
  shows "mset hits = mset (filter (\<lambda>e. above (fst e)) (zip (map (fip x) xb) (map int [0..<length xb])))"
proof -
  let ?es = "zip (map (fip x) xb) (map int [0..<length xb])"
  let ?ab = "filter (\<lambda>e. above (fst e)) ?es"
  have "length ?es \<le> k" using assms(1) by simp
  from fold_heap_room [OF this, of "[]"] obtain hs where
    f: "foldl add_result (replicate k lowest_hit) ?es = replicate (k - length ?ab) lowest_hit @ hs"
    and m: "mset hs = mset ?ab"
    by auto
  have "set hs = set ?ab" using m by (rule mset_eq_setD)
  then have a: "\<forall>h \<in> set hs. h \<noteq> lowest_hit"
    using above_not_lowest by auto
  have b: "\<forall>h \<in> set (rev hits). h \<noteq> lowest_hit"
    using assms(3) above_not_lowest by auto
  have "rev (knn fip xb x k) = replicate n lowest_hit @ rev hits"
    using assms(2) by simp
  then have "replicate (k - length ?ab) lowest_hit @ hs = replicate n lowest_hit @ rev hits"
    using f by (simp add: knn_def)
  from replicate_append_unique [OF a b this] have "hs = rev hits" .
  then show ?thesis using m by simp
qed

lemma index_search_single:
  "index_search fip idx [x] k =
     (if k = 0 \<or> length x \<noteq> idx_d idx then Inl AssertionError
      else Inr ([map fst (knn fip (idx_xb idx) x k)], [map snd (knn fip (idx_xb idx) x k)]))"
  by (simp add: index_search_def)

lemma two_rows_search:
  "index_search exact_ip two_rows [[1]] 3 =
     Inr ([[Fin 2, Fin 1, Fin FLT_LOWEST]], [[1, 0, - 1]])"
  by (simp add: index_search_single two_rows_def knn_def exact_ip_def lowest_hit_def cmp2_def
      f32_eq_def FLT_LOWEST_def eval_nat_numeral)

lemma one_row_search:
  "index_search exact_ip one_row [[1]] 3 =
     Inr ([[Fin 1, Fin FLT_LOWEST, Fin FLT_LOWEST]], [[0, - 1, - 1]])"
  by (simp add: index_search_single one_row_def knn_def exact_ip_def lowest_hit_def cmp2_def
      f32_eq_def FLT_LOWEST_def eval_nat_numeral)

lemma equal_rows_search:
  "index_search exact_ip equal_rows [[1]] 3 =
     Inr ([[Fin 1, Fin 1, Fin FLT_LOWEST]], [[1, 0, - 1]])"
  by (simp add: index_search_single equal_rows_def knn_def exact_ip_def lowest_hit_def cmp2_def
      f32_eq_def FLT_LOWEST_def eval_nat_numeral)

lemma four_rows_search:
  "index_search exact_ip four_rows [[1]] 3 = Inr ([[Fin 2, Fin 1, Fin 1]], [[2, 1, 0]])"
  by (simp add: index_search_single four_rows_def knn_def exact_ip_def lowest_hit_def cmp2_def
      f32_eq_def FLT_LOWEST_def eval_nat_numeral)

lemma lowest_row_search:
  "index_search exact_ip lowest_row [[1]] 2 =
     Inr ([[Fin FLT_LOWEST, Fin FLT_LOWEST]], [[- 1, - 1]])"
  by (simp add: index_search_single lowest_row_def knn_def exact_ip_def lowest_hit_def
      eval_nat_numeral)

lemma no_rows_search:
  "index_search fip no_rows [x] 3 =
     (if length x = 1 then Inr ([[Fin FLT_LOWEST, Fin FLT_LOWEST, Fin FLT_LOWEST]], [[- 1, - 1, - 1]])
      else Inl AssertionError)"
  by (simp add: index_search_single no_rows_def knn_def lowest_hit_def eval_nat_numeral)

lemma ntotal_one_row: "ntotal one_row = 1"
  by (simp add: ntotal_def one_row_def)

lemma scored_rows:
  "zip (map f xb) (map int [0..<length xb]) = map (\<lambda>j. (f (xb ! j), int j)) [0..<length xb]"
  by (rule nth_equalityI) simp_all

lemma hit_ids:
  "map snd (filter (\<lambda>e. above (fst e)) (zip (map f xb) (map int [0..<length xb]))) =
     filter (\<lambda>i. above (f (xb ! nat i))) (map int [0..<length xb])"
  by (simp add: scored_rows filter_map comp_def)

lemma knn_best:
  assumes "j < length xb" and "above (fip x (xb ! j))"
    and "(fip x (xb ! j), int j) \<notin> set (knn fip xb x k)"
  shows "\<forall>h \<in> set (knn fip xb x k). \<not> f32_less (fst h) (fip x (xb ! j))"
proof -
  let ?es = "zip (map (fip x) xb) (map int [0..<length xb])"
  let ?e = "(fip x (xb ! j), int j)"
  let ?H = "foldl add_result (replicate k lowest_hit @ []) ?es"
  have "distinct (map snd ?es)"
    unfolding scored_ids by (simp add: distinct_map)
  then have d: "distinct (map snd ([] @ ?es))" by simp
  have mem: "?e \<in> set ([] @ ?es)"
    using assms(1) unfolding scored_rows by (auto simp: image_iff)
  have H: "set (knn fip xb x k) = set ?H"
    by (simp add: knn_def)
  have "\<forall>e \<in> set ([] @ ?es). above (fst e) \<and> e \<notin> set ?H \<longrightarrow>
          (\<forall>h \<in> set ?H. \<not> f32_less (fst h) (fst e))"
    using fold_heap_best [of "[]" ?es k, OF _ _ d] by simp
  from bspec [OF this mem] have "\<forall>h \<in> set ?H. \<not> f32_less (fst h) (fst ?e)"
    using assms(2,3) unfolding H by simp
  then show ?thesis
    unfolding H by simp
qed

text \<open>
  Claim C1, as amended. For \<open>k \<ge> 1\<close> and a query of the index's dimension the search
  returns \<open>k\<close> pairs of a score and a row id. First come the hits, at most \<open>min k N\<close>
  of them: each is a row of the store with the score the library computes for it, a
  score above the lowest float; they are listed by descending score, and two hits
  of equal score by descending row id, the higher row first. Every slot after them
  holds the lowest float and the id \<open>-1\<close>. The hits are the best rows: a row that
  scores above the lowest float is left out only when all \<open>k\<close> slots are hits and none
  of them scores less than it.
\<close>

theorem search_result_order:
  assumes "1 \<le> k" and "length x = idx_d idx"
  shows "\<exists>hits. index_search fip idx [x] k =
             Inr ([map fst (hits @ replicate (k - length hits) lowest_hit)],
                  [map snd (hits @ replicate (k - length hits) lowest_hit)]) \<and>
           length hits \<le> min k (ntotal idx) \<and>
           sorted_wrt (\<lambda>a b. f32_less (fst b) (fst a) \<or> (fst b = fst a \<and> snd b < snd a)) hits \<and>
           distinct (map snd hits) \<and>
           (\<forall>e \<in> set hits. f32_less (Fin FLT_LOWEST) (fst e) \<and> 0 \<le> snd e \<and>
              snd e < int (ntotal idx) \<and> fst e = fip x (idx_xb idx ! nat (snd e))) \<and>
           (\<forall>j. j < ntotal idx \<and> f32_less (Fin FLT_LOWEST) (fip x (idx_xb idx ! j)) \<and>
                int j \<notin> set (map snd hits) \<longrightarrow>
                length hits = k \<and>
                (\<forall>e \<in> set hits. \<not> f32_less (fst e) (fip x (idx_xb idx ! j))))"
proof -
  let ?xb = "idx_xb idx"
  obtain hits where h: "knn fip ?xb x k = hits @ replicate (k - length hits) lowest_hit"
    "length hits \<le> k" "length hits \<le> length ?xb"
    "sorted_wrt (\<lambda>a b. cmp2 b a) hits" "distinct (map snd hits)"
    "\<forall>e \<in> set hits. above (fst e) \<and> 0 \<le> snd e \<and> snd e < int (length ?xb) \<and>
        fst e = fip x (?xb ! nat (snd e))"
    using knn_hits [of fip ?xb x k] by blast
  have best: "length hits = k \<and> (\<forall>e \<in> set hits. \<not> f32_less (fst e) (fip x (?xb ! j)))"
    if j: "j < length ?xb" "above (fip x (?xb ! j))" "int j \<notin> set (map snd hits)" for j
  proof -
    let ?e = "(fip x (?xb ! j), int j)"
    have "?e \<notin> set hits"
      using j(3) by (auto simp: image_iff)
    moreover have "?e \<noteq> lowest_hit"
      using j(2) above_not_lowest [of ?e] by simp
    ultimately have "?e \<notin> set (knn fip ?xb x k)"
      unfolding h(1) by simp
    with j(1,2) have all: "\<forall>a \<in> set (knn fip ?xb x k). \<not> f32_less (fst a) (fip x (?xb ! j))"
      by (rule knn_best)
    have "length hits = k"
    proof (rule ccontr)
      assume "length hits \<noteq> k"
      then have "lowest_hit \<in> set (knn fip ?xb x k)"
        using h(2) unfolding h(1) by simp
      then have "\<not> f32_less (fst lowest_hit) (fip x (?xb ! j))"
        using all by blast
      then show False
        using j(2) by (simp add: above_def lowest_hit_def)
    qed
    moreover have "\<forall>e \<in> set hits. \<not> f32_less (fst e) (fip x (?xb ! j))"
      using all unfolding h(1) by simp
    ultimately show ?thesis by blast
  qed
  show ?thesis
  proof (intro exI [of _ hits] conjI)
    show "index_search fip idx [x] k =
             Inr ([map fst (hits @ replicate (k - length hits) lowest_hit)],
                  [map snd (hits @ replicate (k - length hits) lowest_hit)])"
      using assms h(1) by (simp add: index_search_single)
    show "length hits \<le> min k (ntotal idx)"
      using h(2,3) by (simp add: ntotal_def)
    show "sorted_wrt (\<lambda>a b. f32_less (fst b) (fst a) \<or> (fst b = fst a \<and> snd b < snd a)) hits"
      using h(4) by (rule sorted_wrt_mono_rel [rotated]) (auto simp: cmp2_def f32_eq_def)
    show "distinct (map snd hits)" by (rule h(5))
    show "\<forall>e \<in> set hits. f32_less (Fin FLT_LOWEST) (fst e) \<and> 0 \<le> snd e \<and>
              snd e < int (ntotal idx) \<and> fst e = fip x (idx_xb idx ! nat (snd e))"
      using h(6) unfolding ntotal_def above_def by blast
    show "\<forall>j. j < ntotal idx \<and> f32_less (Fin FLT_LOWEST) (fip x (idx_xb idx ! j)) \<and>
                int j \<notin> set (map snd hits) \<longrightarrow>
                length hits = k \<and>
                (\<forall>e \<in> set hits. \<not> f32_less (fst e) (fip x (idx_xb idx ! j)))"
      using best unfolding ntotal_def above_def by blast
  qed
qed

theorem search_result_order_witness:
  "(1 :: nat) \<le> 3 \<and> length [1 :: real] = idx_d four_rows \<and>
   index_search exact_ip four_rows [[1]] 3 = Inr ([[Fin 2, Fin 1, Fin 1]], [[2, 1, 0]]) \<and>
   (\<exists>hits. index_search exact_ip four_rows [[1]] 3 =
             Inr ([map fst (hits @ replicate (3 - length hits) lowest_hit)],
                  [map snd (hits @ replicate (3 - length hits) lowest_hit)]) \<and>
           length hits \<le> min 3 (ntotal four_rows) \<and>
           sorted_wrt (\<lambda>a b. f32_less (fst b) (fst a) \<or> (fst b = fst a \<and> snd b < snd a)) hits \<and>
           distinct (map snd hits) \<and>
           (\<forall>e \<in> set hits. f32_less (Fin FLT_LOWEST) (fst e) \<and> 0 \<le> snd e \<and>
              snd e < int (ntotal four_rows) \<and>
              fst e = exact_ip [1] (idx_xb four_rows ! nat (snd e))) \<and>
           (\<forall>j. j < ntotal four_rows \<and>
                f32_less (Fin FLT_LOWEST) (exact_ip [1] (idx_xb four_rows ! j)) \<and>
                int j \<notin> set (map snd hits) \<longrightarrow>
                length hits = 3 \<and>
                (\<forall>e \<in> set hits. \<not> f32_less (fst e) (exact_ip [1] (idx_xb four_rows ! j)))))"
proof -
  have h1: "(1 :: nat) \<le> 3" by simp
  have h2: "length [1 :: real] = idx_d four_rows" by (simp add: four_rows_def)
  show ?thesis
    using search_result_order [OF h1 h2, of exact_ip] h1 h2 four_rows_search by blast
qed

text \<open>
  The claim as the specification words it asks for a strict order on the whole result
  list, results of equal score in ascending row order. Two stored rows of equal score
  are returned with the higher row first; and on a store of one row and \<open>k = 3\<close> the
  two slots that no row fills have the same score and the same id.
\<close>

theorem search_result_order_counterexample:
  "index_search exact_ip equal_rows [[1]] 3 =
     Inr ([[Fin 1, Fin 1, Fin FLT_LOWEST]], [[1, 0, - 1]]) \<and>
   \<not> spec_ranked (zip [Fin 1, Fin 1] [1, 0]) \<and>
   index_search exact_ip one_row [[1]] 3 =
     Inr ([[Fin 1, Fin FLT_LOWEST, Fin FLT_LOWEST]], [[0, - 1, - 1]]) \<and>
   \<not> spec_ranked (zip [Fin 1, Fin FLT_LOWEST, Fin FLT_LOWEST] [0, - 1, - 1])"
  by (simp add: equal_rows_search one_row_search spec_ranked_def)

text \<open>
  Claim C2, as amended. When \<open>k\<close> exceeds the number \<open>N\<close> of stored rows, the search
  of a query of the right dimension raises nothing and returns exactly \<open>k\<close> entries:
  first the hits, which are the stored rows whose score is above the lowest float, each
  once and with its score, then at least one slot holding the lowest float and the id
  \<open>-1\<close>. When every row scores above the lowest float the hits are all \<open>N\<close> rows; on
  an empty store all \<open>k\<close> entries are such slots.
\<close>

theorem search_beyond_stored:
  assumes "length x = idx_d idx" and "ntotal idx < k"
  shows "\<exists>hits. index_search fip idx [x] k =
             Inr ([map fst (hits @ replicate (k - length hits) lowest_hit)],
                  [map snd (hits @ replicate (k - length hits) lowest_hit)]) \<and>
           length (hits @ replicate (k - length hits) lowest_hit) = k \<and>
           length hits < k \<and>
           mset (map snd hits) =
             mset (filter (\<lambda>i. above (fip x (idx_xb idx ! nat i))) (map int [0..<ntotal idx])) \<and>
           (\<forall>e \<in> set hits. fst e = fip x (idx_xb idx ! nat (snd e))) \<and>
           ((\<forall>row \<in> set (idx_xb idx). above (fip x row)) \<longrightarrow>
              mset (map snd hits) = mset (map int [0..<ntotal idx])) \<and>
           (ntotal idx = 0 \<longrightarrow> hits = [])"
proof -
  let ?xb = "idx_xb idx"
  obtain hits where h: "knn fip ?xb x k = hits @ replicate (k - length hits) lowest_hit"
    "length hits \<le> k" "length hits \<le> length ?xb"
    "\<forall>e \<in> set hits. above (fst e) \<and> 0 \<le> snd e \<and> snd e < int (length ?xb) \<and>
        fst e = fip x (?xb ! nat (snd e))"
    using knn_hits [of fip ?xb x k] by blast
  have room: "length ?xb \<le> k" using assms(2) by (simp add: ntotal_def)
  have "\<forall>e \<in> set hits. above (fst e)" using h(4) by blast
  with room h(1) have "mset hits =
      mset (filter (\<lambda>e. above (fst e)) (zip (map (fip x) ?xb) (map int [0..<length ?xb])))"
    by (rule knn_room)
  then have "mset (map snd hits) =
      mset (map snd (filter (\<lambda>e. above (fst e)) (zip (map (fip x) ?xb) (map int [0..<length ?xb]))))"
    by (simp only: mset_map)
  then have ids: "mset (map snd hits) =
      mset (filter (\<lambda>i. above (fip x (?xb ! nat i))) (map int [0..<ntotal idx]))"
    by (simp only: hit_ids ntotal_def)
  show ?thesis
  proof (intro exI [of _ hits] conjI)
    show "index_search fip idx [x] k =
             Inr ([map fst (hits @ replicate (k - length hits) lowest_hit)],
                  [map snd (hits @ replicate (k - length hits) lowest_hit)])"
      using assms h(1) by (simp add: index_search_single)
    show "length (hits @ replicate (k - length hits) lowest_hit) = k"
      using h(2) by simp
    show "length hits < k"
      using h(3) assms(2) by (simp add: ntotal_def)
    show "mset (map snd hits) =
      mset (filter (\<lambda>i. above (fip x (?xb ! nat i))) (map int [0..<ntotal idx]))"
      by (rule ids)
    show "\<forall>e \<in> set hits. fst e = fip x (?xb ! nat (snd e))"
      using h(4) by blast
    show "(\<forall>row \<in> set ?xb. above (fip x row)) \<longrightarrow>
              mset (map snd hits) = mset (map int [0..<ntotal idx])"
    proof
      assume "\<forall>row \<in> set ?xb. above (fip x row)"
      then have "filter (\<lambda>i. above (fip x (?xb ! nat i))) (map int [0..<ntotal idx]) =
                   map int [0..<ntotal idx]"
        by (simp add: filter_map comp_def ntotal_def)
      then show "mset (map snd hits) = mset (map int [0..<ntotal idx])"
        using ids by simp
    qed
    show "ntotal idx = 0 \<longrightarrow> hits = []"
      using h(3) by (auto simp: ntotal_def)
  qed
qed

theorem search_beyond_stored_witness:
  "length [1::real] = idx_d one_row \<and> ntotal one_row < 3 \<and>
   index_search exact_ip one_row [[1]] 3 =
     Inr ([[Fin 1, Fin FLT_LOWEST, Fin FLT_LOWEST]], [[0, - 1, - 1]]) \<and>
   index_search exact_ip lowest_row [[1]] 2 =
     Inr ([[Fin FLT_LOWEST, Fin FLT_LOWEST]], [[- 1, - 1]]) \<and>
   (\<exists>hits. index_search exact_ip one_row [[1]] 3 =
             Inr ([map fst (hits @ replicate (3 - length hits) lowest_hit)],
                  [map snd (hits @ replicate (3 - length hits) lowest_hit)]) \<and>
           length (hits @ replicate (3 - length hits) lowest_hit) = 3 \<and>
           length hits < 3 \<and>
           mset (map snd hits) =
             mset (filter (\<lambda>i. above (exact_ip [1] (idx_xb one_row ! nat i)))
                     (map int [0..<ntotal one_row])) \<and>
           (\<forall>e \<in> set hits. fst e = exact_ip [1] (idx_xb one_row ! nat (snd e))) \<and>
           ((\<forall>row \<in> set (idx_xb one_row). above (exact_ip [1] row)) \<longrightarrow>
              mset (map snd hits) = mset (map int [0..<ntotal one_row])) \<and>
           (ntotal one_row = 0 \<longrightarrow> hits = []))"
proof -
  have h1: "length [1::real] = idx_d one_row" by (simp add: one_row_def)
  have h2: "ntotal one_row < 3" by (simp add: one_row_def ntotal_def)
  show ?thesis
    using search_beyond_stored [OF h1 h2, of exact_ip] h1 h2 one_row_search lowest_row_search
    by blast
qed

text \<open>
  The specification asks for exactly \<open>N\<close> results. A store of one row searched
  with \<open>k = 3\<close> returns three entries, and so does the empty store.
\<close>

theorem search_beyond_stored_counterexample:
  "index_search exact_ip one_row [[1]] 3 =
     Inr ([[Fin 1, Fin FLT_LOWEST, Fin FLT_LOWEST]], [[0, - 1, - 1]]) \<and>
   length [0, - 1, - 1 :: int] \<noteq> ntotal one_row \<and>
   index_search exact_ip no_rows [[1]] 3 =
     Inr ([[Fin FLT_LOWEST, Fin FLT_LOWEST, Fin FLT_LOWEST]], [[- 1, - 1, - 1]]) \<and>
   [- 1, - 1, - 1 :: int] \<noteq> []"
  by (simp add: one_row_search no_rows_search ntotal_one_row)

section \<open>The command-line loop on a small store\<close>

lemma getitem_nat: "j < length xs \<Longrightarrow> getitem xs (int j) = Inr (xs ! j)"
  by (simp add: getitem_def)

lemma getitem_minus_one: "xs \<noteq> [] \<Longrightarrow> getitem xs (- 1) = Inr (last xs)"
  by (cases xs rule: rev_cases) (simp_all add: getitem_def nat_add_distrib)

lemma getitem_map:
  "getitem xs i = Inr v \<Longrightarrow> getitem (map f xs) i = Inr (f v)"
  by (auto simp: getitem_def split: if_splits)

lemma render_cli_ok:
  assumes "\<forall>i \<in> set ids. \<exists>doc. getitem docs i = Inr doc"
  shows "render_cli (JList (map JStr docs)) r ids =
           Inr (zip [r..<r + length ids] (map (\<lambda>i. preview (projr (getitem docs i))) ids))"
  using assms
proof (induction ids arbitrary: r)
  case Nil
  then show ?case by simp
next
  case (Cons i ids)
  from Cons.prems obtain doc where doc: "getitem docs i = Inr doc" by auto
  then have sub: "subscript_int (JList (map JStr docs)) i = Inr (JStr doc)"
    by (simp add: getitem_map)
  have "render_cli (JList (map JStr docs)) (r + 1) ids =
          Inr (zip [r + 1..<r + 1 + length ids] (map (\<lambda>i. preview (projr (getitem docs i))) ids))"
    using Cons.IH Cons.prems by simp
  moreover have "[r..<r + length (i # ids)] = r # [r + 1..<r + 1 + length ids]"
    by (simp add: upt_rec)
  ultimately show ?case using doc sub by simp
qed

lemma filter_two:
  assumes "i < j" "j < length xs" "P (xs ! i)" "P (xs ! j)"
  shows "2 \<le> length (filter P xs)"
proof -
  have "xs ! i \<in> set (take j xs)"
    using assms(1,2) by (metis in_set_conv_nth length_take min.absorb2 nth_take less_imp_le)
  then have a: "filter P (take j xs) \<noteq> []"
    using assms(3) by (auto simp: filter_empty_conv)
  have "xs ! j \<in> set (drop j xs)"
    using assms(2) by (metis Cons_nth_drop_Suc list.set_intros(1))
  then have b: "filter P (drop j xs) \<noteq> []"
    using assms(4) by (auto simp: filter_empty_conv)
  have "filter P xs = filter P (take j xs) @ filter P (drop j xs)"
    by (metis append_take_drop_id filter_append)
  moreover have "1 \<le> length (filter P (take j xs))" "1 \<le> length (filter P (drop j xs))"
    using a b by (simp_all add: Suc_le_eq)
  ultimately show ?thesis by simp
qed

text \<open>The ids of a search that has a slot for every row and finds them all.\<close>

lemma all_rows_hit:
  assumes "distinct ids" and "length ids = n" and "\<forall>i \<in> set ids. 0 \<le> i \<and> i < int n"
  shows "set ids = set (map int [0..<n])"
proof -
  have "set ids \<subseteq> set (map int [0..<n])"
  proof
    fix i assume "i \<in> set ids"
    then have "0 \<le> i" "i < int n" using assms(3) by auto
    then have "nat i \<in> set [0..<n]" "i = int (nat i)" by auto
    then show "i \<in> set (map int [0..<n])" unfolding set_map by (rule image_eqI [rotated])
  qed
  moreover have "card (set ids) = n"
    using assms(1,2) distinct_card by blast
  moreover have "card (set (map int [0..<n])) = n"
    using distinct_card [of "map int [0..<n]"] by (simp add: distinct_map)
  ultimately show ?thesis
    by (intro card_subset_eq) simp_all
qed

text \<open>
  Claim C10, as amended. Take a store of \<open>N\<close> documents with \<open>1 \<le> N < 3\<close>, its index
  holding one row per document, and an input line that is neither \<^verbatim>\<open>exit\<close> nor
  \<^verbatim>\<open>quit\<close>, embedded to one vector of the index's dimension. The pass of the loop asks
  the index for three results and gets the id \<open>-1\<close> in every slot after the first
  \<open>N\<close>. It prints three lines; each line of a padded slot shows \<^verbatim>\<open>docs[-1]\<close>, the last
  document, which therefore appears on at least two of the three lines.
\<close>

theorem cli_padding_shows_last_document:
  assumes "ntotal index = length docs" and "1 \<le> length docs" and "length docs < 3"
    and "lower (strip line) \<noteq> cp ''exit''" and "lower (strip line) \<noteq> cp ''quit''"
    and "encode [strip line] = [q]" and "length q = idx_d index"
  shows "\<exists>scores ids lines.
           index_search fip index [q] 3 = Inr ([scores], [ids]) \<and>
           drop (length docs) ids = replicate (3 - length docs) (- 1) \<and>
           cli_query encode fip index (JList (map JStr docs)) line =
             (JList (map JStr docs), [[strip line]], Results lines) \<and>
           length lines = 3 \<and>
           (\<forall>j. length docs \<le> j \<and> j < 3 \<longrightarrow> lines ! j = (j + 1, preview (last docs))) \<and>
           2 \<le> length (filter (\<lambda>l. snd l = preview (last docs)) lines)"
proof -
  let ?n = "length docs"
  let ?f = "\<lambda>i. preview (projr (getitem docs i))"
  obtain hits where h: "knn fip (idx_xb index) q 3 = hits @ replicate (3 - length hits) lowest_hit"
    "length hits \<le> length (idx_xb index)" "distinct (map snd hits)"
    "\<forall>e \<in> set hits. above (fst e) \<and> 0 \<le> snd e \<and> snd e < int (length (idx_xb index)) \<and>
        fst e = fip q (idx_xb index ! nat (snd e))"
    using knn_hits [of fip "idx_xb index" q 3] by blast
  define m where "m = length hits"
  define ids where "ids = map snd (knn fip (idx_xb index) q 3)"
  define scores where "scores = map fst (knn fip (idx_xb index) q 3)"
  define lines where "lines = zip [1..<1 + length ids] (map ?f ids)"
  have n: "length (idx_xb index) = ?n" using assms(1) by (simp add: ntotal_def)
  have docs: "docs \<noteq> []" using assms(2) by auto
  have m: "m \<le> ?n" using h(2) n by (simp add: m_def)
  have ids: "ids = map snd hits @ replicate (3 - m) (- 1)"
    unfolding ids_def h(1) by (simp add: lowest_hit_def m_def)
  have len: "length ids = 3" using m assms(3) by (simp add: ids m_def)
  have srch: "index_search fip index [q] 3 = Inr ([scores], [ids])"
    using assms(7) by (simp add: index_search_single ids_def scores_def)
  have pad: "ids ! j = - 1" if "m \<le> j" "j < 3" for j
    using that by (simp add: ids nth_append m_def)
  have tail: "drop ?n ids = replicate (3 - ?n) (- 1)"
    using m by (simp add: ids m_def)
  have rows: "\<forall>i \<in> set (map snd hits). 0 \<le> i \<and> i < int ?n"
    using h(4) n by auto
  have valid: "\<forall>i \<in> set ids. \<exists>doc. getitem docs i = Inr doc"
  proof
    fix i assume "i \<in> set ids"
    then have "i \<in> set (map snd hits) \<or> i = - 1"
      by (auto simp: ids)
    then show "\<exists>doc. getitem docs i = Inr doc"
    proof
      assume "i \<in> set (map snd hits)"
      then have "0 \<le> i" "i < int ?n" using rows by auto
      then show ?thesis by (simp add: getitem_def)
    next
      assume "i = - 1"
      then show ?thesis using docs by (simp add: getitem_minus_one)
    qed
  qed
  have render: "render_cli (JList (map JStr docs)) 1 ids = Inr lines"
    unfolding lines_def by (rule render_cli_ok [OF valid])
  have "getitem [ids] 0 = Inr ids" by (simp add: getitem_def)
  then have run: "cli_query encode fip index (JList (map JStr docs)) line =
      (JList (map JStr docs), [[strip line]], Results lines)"
    using assms(4,5,6) srch render by (simp add: cli_query_def Let_def)
  have ll: "length lines = 3" using len by (simp add: lines_def)
  have at: "lines ! j = (j + 1, ?f (ids ! j))" if "j < 3" for j
    using that len by (simp add: lines_def)
  have padded: "lines ! j = (j + 1, preview (last docs))" if "m \<le> j" "j < 3" for j
    using at [OF that(2)] pad [OF that] docs by (simp add: getitem_minus_one)
  have beyond: "\<forall>j. ?n \<le> j \<and> j < 3 \<longrightarrow> lines ! j = (j + 1, preview (last docs))"
    using padded m by auto
  have two: "2 \<le> length (filter (\<lambda>l. snd l = preview (last docs)) lines)"
  proof (cases "m = ?n")
    case True
    have "set (map snd hits) = set (map int [0..<?n])"
      using h(3) rows True by (intro all_rows_hit) (simp_all add: m_def)
    moreover have "?n - 1 \<in> set [0..<?n]" using assms(2) by simp
    then have "int (?n - 1) \<in> set (map int [0..<?n])" unfolding set_map by (rule imageI)
    ultimately have "int (?n - 1) \<in> set (map snd hits)" by simp
    then obtain i where i: "i < ?n" "map snd hits ! i = int (?n - 1)"
      using True by (auto simp: in_set_conv_nth m_def)
    then have idi: "ids ! i = int (?n - 1)"
      using True by (simp add: ids nth_append m_def)
    have "getitem docs (int (?n - 1)) = Inr (last docs)"
      using getitem_nat [of "?n - 1" docs] assms(2) docs by (simp add: last_conv_nth)
    then have "?f (ids ! i) = preview (last docs)"
      unfolding idi by (simp only: sum.sel)
    moreover have "i < 3" using i(1) assms(3) by simp
    ultimately have hit: "snd (lines ! i) = preview (last docs)"
      using at [of i] by simp
    have hit2: "snd (lines ! ?n) = preview (last docs)"
      using padded [of ?n] True assms(3) by simp
    have "?n < length lines" using ll assms(3) by simp
    then show ?thesis
      using i(1) hit hit2 by (intro filter_two [of i ?n])
  next
    case False
    then have lt: "m < Suc m" "Suc m < 3" using m assms(3) by simp_all
    have "snd (lines ! m) = preview (last docs)"
      using padded [of m] lt by simp
    moreover have "snd (lines ! Suc m) = preview (last docs)"
      using padded [of "Suc m"] lt by simp
    moreover have "Suc m < length lines" using ll lt by simp
    ultimately show ?thesis
      using lt(1) by (intro filter_two [of m "Suc m"])
  qed
  show ?thesis
    using srch tail run ll beyond two by blast
qed

lemma cp_hello: "cp ''hello'' = [104, 101, 108, 108, 111]"
  by (simp add: cp_def)

lemma strip_hello: "strip (cp ''hello'') = cp ''hello''"
  unfolding cp_hello by (simp add: strip_def isspace_def)

lemma lower_hello: "lower (cp ''hello'') = cp ''hello''"
  unfolding cp_hello by (simp add: lower_def)

lemma hello_not_command: "cp ''hello'' \<noteq> cp ''exit''" "cp ''hello'' \<noteq> cp ''quit''"
  by (simp_all add: cp_def)

text \<open>
  The claim speaks of every store with fewer than three documents. On the empty store
  all three ids are \<open>-1\<close> and \<^verbatim>\<open>docs[-1]\<close> raises \<^verbatim>\<open>IndexError\<close>: nothing is shown.
\<close>

theorem cli_empty_store_counterexample:
  "cli_query const_encode exact_ip no_rows (JList []) (cp ''hello'') =
     (JList [], [[cp ''hello'']], Raised IndexError)"
proof -
  have "const_encode [cp ''hello''] = [[1]]"
    by (simp add: const_encode_def)
  moreover have "getitem [[- 1, - 1, - 1 :: int]] 0 = Inr [- 1, - 1, - 1]"
    by (simp add: getitem_def)
  moreover have "render_cli (JList []) 1 [- 1, - 1, - 1] = Inl IndexError"
    by (simp add: getitem_def)
  ultimately show ?thesis
    by (simp add: cli_query_def Let_def strip_hello lower_hello hello_not_command no_rows_search)
qed

theorem cli_padding_shows_last_document_witness:
  "ntotal one_row = length [cp ''doc''] \<and> 1 \<le> length [cp ''doc''] \<and> length [cp ''doc''] < 3 \<and>
   lower (strip (cp '' hello '')) \<noteq> cp ''exit'' \<and> lower (strip (cp '' hello '')) \<noteq> cp ''quit'' \<and>
   const_encode [strip (cp '' hello '')] = [[1]] \<and> length [1 :: real] = idx_d one_row \<and>
   (\<exists>scores ids lines.
      index_search exact_ip one_row [[1]] 3 = Inr ([scores], [ids]) \<and>
      drop (length [cp ''doc'']) ids = replicate (3 - length [cp ''doc'']) (- 1) \<and>
      cli_query const_encode exact_ip one_row (JList (map JStr [cp ''doc''])) (cp '' hello '') =
        (JList (map JStr [cp ''doc'']), [[strip (cp '' hello '')]], Results lines) \<and>
      length lines = 3 \<and>
      (\<forall>j. length [cp ''doc''] \<le> j \<and> j < 3 \<longrightarrow> lines ! j = (j + 1, preview (last [cp ''doc'']))) \<and>
      2 \<le> length (filter (\<lambda>l. snd l = preview (last [cp ''doc''])) lines))"
proof -
  have h1: "ntotal one_row = length [cp ''doc'']" by (simp add: ntotal_def one_row_def)
  have h2: "1 \<le> length [cp ''doc'']" by simp
  have h3: "length [cp ''doc''] < 3" by simp
  have s: "strip (cp '' hello '') = cp ''hello''"
    by (simp add: strip_def cp_def isspace_def)
  have h4: "lower (strip (cp '' hello '')) \<noteq> cp ''exit''"
    unfolding s by (simp add: lower_def cp_def)
  have h5: "lower (strip (cp '' hello '')) \<noteq> cp ''quit''"
    unfolding s by (simp add: lower_def cp_def)
  have h6: "const_encode [strip (cp '' hello '')] = [[1]]" by (simp add: const_encode_def)
  have h7: "length [1 :: real] = idx_d one_row" by (simp add: one_row_def)
  show ?thesis
    using cli_padding_shows_last_document
        [where index = one_row and docs = "[cp ''doc'']" and line = "cp '' hello ''"
           and encode = const_encode and q = "[1]" and fip = exact_ip, OF h1 h2 h3 h4 h5 h6 h7]
      h1 h2 h3 h4 h5 h6 h7
    by blast
qed

section \<open>The display previews\<close>

lemma isspace_32: "isspace 32"
  by (simp add: isspace_def)

lemma split_from_word:
  "\<forall>c \<in> set v. \<not> isspace c \<Longrightarrow> split_from w (v @ s) = split_from (w @ v) s"
  by (induction v arbitrary: w) simp_all

lemma split_from_spaces:
  "\<forall>c \<in> set sp. isspace c \<Longrightarrow> split_from w sp = (if w = [] then [] else [w])"
  by (induction sp arbitrary: w) simp_all

lemma split_from_trailing:
  "\<forall>c \<in> set sp. isspace c \<Longrightarrow> split_from w (s @ sp) = split_from w s"
  by (induction s arbitrary: w) (simp_all add: split_from_spaces)

lemma split_from_leading: "split_from [] (dropWhile isspace s) = split_from [] s"
  by (induction s) simp_all

lemma split_strip: "split (strip s) = split s"
proof -
  let ?t = "dropWhile isspace s"
  have "?t = rev (dropWhile isspace (rev ?t)) @ rev (takeWhile isspace (rev ?t))"
    by (metis rev_append rev_rev_ident takeWhile_dropWhile_id)
  moreover have "\<forall>c \<in> set (rev (takeWhile isspace (rev ?t))). isspace c"
    by (auto dest: set_takeWhileD)
  ultimately have "split_from [] ?t = split_from [] (rev (dropWhile isspace (rev ?t)))"
    by (metis split_from_trailing)
  then show ?thesis
    by (simp add: split_def strip_def split_from_leading)
qed

lemma split_from_words:
  "\<forall>c \<in> set w. \<not> isspace c \<Longrightarrow>
     \<forall>v \<in> set (split_from w s). v \<noteq> [] \<and> (\<forall>c \<in> set v. \<not> isspace c)"
proof (induction s arbitrary: w)
  case Nil
  then show ?case by simp
next
  case (Cons a s)
  show ?case
  proof (cases "isspace a")
    case True
    have "\<forall>v \<in> set (split_from [] s). v \<noteq> [] \<and> (\<forall>c \<in> set v. \<not> isspace c)"
      by (rule Cons.IH) simp
    then show ?thesis using True Cons.prems by simp
  next
    case False
    have "\<forall>v \<in> set (split_from (w @ [a]) s). v \<noteq> [] \<and> (\<forall>c \<in> set v. \<not> isspace c)"
      by (rule Cons.IH) (use False Cons.prems in auto)
    then show ?thesis using False by simp
  qed
qed

lemma split_words: "\<forall>v \<in> set (split s). v \<noteq> [] \<and> (\<forall>c \<in> set v. \<not> isspace c)"
  unfolding split_def by (rule split_from_words) simp

lemma concat_split_from:
  "concat (split_from w s) = w @ filter (\<lambda>c. \<not> isspace c) s"
  by (induction s arbitrary: w) simp_all

lemma split_join:
  "\<forall>v \<in> set ws. v \<noteq> [] \<and> (\<forall>c \<in> set v. \<not> isspace c) \<Longrightarrow> split_from [] (join [32] ws) = ws"
proof (induction "[32 :: nat]" ws rule: join.induct)
  case 1
  then show ?case by simp
next
  case (2 w)
  then show ?case using split_from_word [of w "[]" "[]"] by simp
next
  case (3 w v ws)
  have "split_from [] (w @ 32 # join [32] (v # ws)) = split_from w (32 # join [32] (v # ws))"
    using split_from_word [of w "[]" "32 # join [32] (v # ws)"] 3(2) by simp
  also have "\<dots> = w # split_from [] (join [32] (v # ws))"
    using 3(2) by (simp add: isspace_32)
  also have "\<dots> = w # v # ws"
    using 3 by simp
  finally show ?case by simp
qed

lemma filter_join:
  "\<forall>v \<in> set ws. \<forall>c \<in> set v. \<not> isspace c \<Longrightarrow>
     filter (\<lambda>c. \<not> isspace c) (join [32] ws) = concat ws"
  by (induction "[32 :: nat]" ws rule: join.induct) (simp_all add: isspace_32)

lemma single_spaced_word:
  "w \<noteq> [] \<Longrightarrow> \<forall>c \<in> set w. \<not> isspace c \<Longrightarrow> single_spaced t \<Longrightarrow> spec_collapsed t \<Longrightarrow>
     t \<noteq> [] \<Longrightarrow> single_spaced (w @ 32 # t)"
proof (induction w rule: single_spaced.induct)
  case 1
  then show ?case by simp
next
  case (2 c)
  then show ?case by (cases t) simp_all
next
  case (3 c d cs)
  then show ?case by simp
qed

lemma single_spaced_plain:
  "\<forall>c \<in> set w. \<not> isspace c \<Longrightarrow> single_spaced w"
  by (induction w rule: single_spaced.induct) simp_all

lemma spec_collapsed_join:
  "\<forall>v \<in> set ws. v \<noteq> [] \<and> (\<forall>c \<in> set v. \<not> isspace c) \<Longrightarrow>
     single_spaced (join [32] ws) \<and> spec_collapsed (join [32] ws) \<and> (ws \<noteq> [] \<longrightarrow> join [32] ws \<noteq> [])"
proof (induction "[32 :: nat]" ws rule: join.induct)
  case 1
  then show ?case by simp
next
  case (2 w)
  then show ?case by (cases w) (simp_all add: single_spaced_plain)
next
  case (3 w v ws)
  let ?t = "join [32] (v # ws)"
  from 3 have t: "single_spaced ?t" "spec_collapsed ?t" "?t \<noteq> []" by simp_all
  have w: "w \<noteq> []" "\<forall>c \<in> set w. \<not> isspace c" using 3(2) by simp_all
  have "single_spaced (w @ 32 # ?t)"
    using single_spaced_word [OF w t] .
  moreover obtain c cs where "w = c # cs" using w(1) by (cases w) auto
  ultimately show ?case using w(2) by simp
qed

lemma collapse_words: "collapse text = join [32] (split text)"
  by (simp add: collapse_def split_strip)

lemma split_collapse: "split (collapse text) = split text"
  unfolding collapse_words using split_join [OF split_words] by (simp add: split_def)

lemma spec_collapsed_collapse: "spec_collapsed (collapse text)"
  unfolding collapse_words using spec_collapsed_join [OF split_words] by simp

lemma filter_collapse:
  "filter (\<lambda>c. \<not> isspace c) (collapse text) = filter (\<lambda>c. \<not> isspace c) text"
proof -
  have "filter (\<lambda>c. \<not> isspace c) (join [32] (split text)) = concat (split text)"
    by (rule filter_join) (use split_words in blast)
  then show ?thesis
    by (simp add: collapse_words split_def concat_split_from)
qed

text \<open>
  Claim C9, as amended. The page's preview \<open>snippet\<close> is the collapsed text when that has
  at most 280 characters, and otherwise its first 280 characters followed by the
  ellipsis U+2026. The collapsed text is the words of the document joined by single
  spaces: it has the same words and the same non-whitespace characters as the
  document, and no whitespace but single spaces between words. The command-line
  preview is another function: the first 160 characters of the text as it is, followed
  by three dots when the text has more than 160. A run of the page and a pass of the
  command-line loop both leave the stored documents as they were.
\<close>

theorem display_previews:
  "snippet text =
     (if length (collapse text) \<le> 280 then collapse text else take 280 (collapse text) @ [8230]) \<and>
   collapse text = join [32] (split text) \<and>
   spec_collapsed (collapse text) \<and>
   split (collapse text) = split text \<and>
   filter (\<lambda>c. \<not> isspace c) (collapse text) = filter (\<lambda>c. \<not> isspace c) text \<and>
   preview text = take 160 text @ (if 160 < length text then [46, 46, 46] else []) \<and>
   fst (app_run encode fip (index, docs, meta) query top_k) = (index, docs, meta) \<and>
   fst (cli_query encode fip index docs line) = docs"
proof -
  have "snippet text =
     (if length (collapse text) \<le> 280 then collapse text else take 280 (collapse text) @ [8230])"
    by (simp add: snippet_def snippet_n_def Let_def)
  moreover have "preview text = take 160 text @ (if 160 < length text then [46, 46, 46] else [])"
    by (simp add: preview_def cp_def)
  moreover have "fst (app_run encode fip (index, docs, meta) query top_k) = (index, docs, meta)"
    by (simp add: app_run_def Let_def)
  moreover have "fst (cli_query encode fip index docs line) = docs"
    by (simp add: cli_query_def Let_def)
  ultimately show ?thesis
    using collapse_words spec_collapsed_collapse split_collapse filter_collapse by blast
qed

lemma cp_a_b: "cp ''a  b'' = [97, 32, 32, 98]"
  by (simp add: cp_def)

text \<open>
  The claim gives every display preview the collapsing and the length 280. The
  command-line preview keeps the two spaces of \<^verbatim>\<open>a  b\<close>, which the page collapses.
\<close>

theorem display_previews_counterexample:
  "preview (cp ''a  b'') = cp ''a  b'' \<and> \<not> spec_collapsed (preview (cp ''a  b'')) \<and>
   snippet (cp ''a  b'') = cp ''a b''"
proof -
  have "preview [97, 32, 32, 98] = [97, 32, 32, 98]"
    by (simp add: preview_def)
  moreover have "\<not> spec_collapsed [97, 32, 32, 98]"
    by (simp add: isspace_def)
  moreover have "snippet [97, 32, 32, 98] = [97, 32, 98]"
    by (simp add: snippet_def snippet_n_def collapse_def strip_def split_def isspace_def)
  moreover have "cp ''a b'' = [97, 32, 98]"
    by (simp add: cp_def)
  ultimately show ?thesis
    by (simp add: cp_a_b)
qed

section \<open>Empty queries\<close>

lemma one_row_search_1:
  "index_search exact_ip one_row [[1]] (Suc 0) = Inr ([[Fin 1]], [[0]])"
  by (simp add: index_search_single one_row_def knn_def exact_ip_def lowest_hit_def cmp2_def
      f32_eq_def FLT_LOWEST_def)

lemma strip_blank: "strip (cp ''  '') = []"
  by (simp add: strip_def cp_def isspace_def)

lemma cp_doc: "cp ''doc'' = [100, 111, 99]"
  by (simp add: cp_def)

lemma snippet_doc: "snippet (cp ''doc'') = cp ''doc''"
  unfolding cp_doc
  by (simp add: snippet_def snippet_n_def collapse_def strip_def split_def isspace_def)

lemma preview_doc: "preview (cp ''doc'') = cp ''doc''"
  unfolding cp_doc by (simp add: preview_def)

text \<open>
  Claim C4, as amended. With the empty string in the text box the page passes nothing
  to the embedder and searches nothing: it shows its hint, raises no error and leaves
  the store as it was.
\<close>

theorem empty_query_not_embedded: "app_run encode fip st [] top_k = (st, [], Info)"
  by (cases st) (simp add: app_run_def)

text \<open>
  The claim asks the same of every query that strips to empty, and asks for an error.
  The page does not strip: it embeds a query of two spaces and searches with it. The
  command-line loop strips the line and then embeds the empty string.
\<close>

theorem empty_query_not_embedded_counterexample:
  "strip (cp ''  '') = [] \<and>
   app_run const_encode exact_ip one_doc_store (cp ''  '') 1 =
     (one_doc_store, [[cp ''  '']], Rows [(1, JStr (cp ''a.txt''), Fin 1, cp ''doc'')]) \<and>
   cli_query const_encode exact_ip one_row (JList [JStr (cp ''doc'')]) (cp ''  '') =
     (JList [JStr (cp ''doc'')], [[[]]],
      Results [(1, cp ''doc''), (2, cp ''doc''), (3, cp ''doc'')])"
proof -
  have enc: "const_encode [q] = [[1]]" for q
    by (simp add: const_encode_def)
  have ne: "cp ''  '' \<noteq> []"
    by (simp add: cp_def)
  have "render_app (JList [JStr (cp ''doc'')]) (JList [JDict [(cp ''source'', JStr (cp ''a.txt''))]])
          1 [(Fin 1, 0)] = Inr [(1, JStr (cp ''a.txt''), Fin 1, cp ''doc'')]"
    by (simp add: getitem_def snippet_doc)
  then have app: "app_run const_encode exact_ip one_doc_store (cp ''  '') 1 =
     (one_doc_store, [[cp ''  '']], Rows [(1, JStr (cp ''a.txt''), Fin 1, cp ''doc'')])"
    by (simp add: app_run_def one_doc_store_def Let_def enc ne one_row_search_1 getitem_def)
  have cmd: "lower [] \<noteq> cp ''exit''" "lower [] \<noteq> cp ''quit''"
    by (simp_all add: lower_def cp_def)
  have "render_cli (JList [JStr (cp ''doc'')]) 1 [0, - 1, - 1] =
          Inr [(1, cp ''doc''), (2, cp ''doc''), (3, cp ''doc'')]"
    by (simp add: getitem_def preview_doc)
  then have cli: "cli_query const_encode exact_ip one_row (JList [JStr (cp ''doc'')]) (cp ''  '') =
     (JList [JStr (cp ''doc'')], [[[]]],
      Results [(1, cp ''doc''), (2, cp ''doc''), (3, cp ''doc'')])"
    by (simp add: cli_query_def Let_def strip_blank cmd enc one_row_search getitem_def)
  show ?thesis
    using strip_blank app cli by simp
qed

section \<open>The build\<close>

lemma artifact_path_names:
  "path_join OUT_DIR (cp ''faiss.index'') = cp ''artifacts/faiss.index''"
  "path_join OUT_DIR (cp ''docs.json'') = cp ''artifacts/docs.json''"
  "path_join OUT_DIR (cp ''meta.json'') = cp ''artifacts/meta.json''"
  "OUT_DIR @ cp ''/faiss.index'' = cp ''artifacts/faiss.index''"
  "OUT_DIR @ cp ''/docs.json'' = cp ''artifacts/docs.json''"
  "OUT_DIR @ cp ''/meta.json'' = cp ''artifacts/meta.json''"
  by (simp_all add: path_join_def OUT_DIR_def cp_def)

lemma artifact_paths_distinct:
  "cp ''artifacts/faiss.index'' \<noteq> cp ''artifacts/docs.json''"
  "cp ''artifacts/faiss.index'' \<noteq> cp ''artifacts/meta.json''"
  "cp ''artifacts/docs.json'' \<noteq> cp ''artifacts/meta.json''"
  "cp ''artifacts/docs.json'' \<noteq> cp ''artifacts/faiss.index''"
  "cp ''artifacts/meta.json'' \<noteq> cp ''artifacts/faiss.index''"
  "cp ''artifacts/meta.json'' \<noteq> cp ''artifacts/docs.json''"
  "OUT_DIR \<noteq> cp ''artifacts/faiss.index''"
  "OUT_DIR \<noteq> cp ''artifacts/docs.json''"
  "OUT_DIR \<noteq> cp ''artifacts/meta.json''"
  by (simp_all add: OUT_DIR_def cp_def)

lemma artifact_paths_eq:
  "artifact_paths =
     [cp ''artifacts/faiss.index'', cp ''artifacts/docs.json'', cp ''artifacts/meta.json'']"
  by (simp add: artifact_paths_def artifact_path_names)

lemma makedirs_data_dir: "makedirs fs p = Inr fs0 \<Longrightarrow> data_dir fs0 = data_dir fs"
  by (auto simp: makedirs_def split: option.splits node.splits)

lemma makedirs_files:
  "makedirs fs p = Inr fs0 \<Longrightarrow> q \<noteq> p \<Longrightarrow> files fs0 q = files fs q"
  by (auto simp: makedirs_def split: option.splits node.splits)

lemma read_text_error:
  "read_text entries p = Inl e \<Longrightarrow>
     e = FileNotFoundError p \<or> e = IsADirectoryError p \<or> e = UnicodeDecodeError p"
  by (auto simp: read_text_def split: option.splits entry.splits)

lemma makedirs_ok_iff:
  "(\<exists>fs0. makedirs fs p = Inr fs0) \<longleftrightarrow> files fs p = None \<or> files fs p = Some Directory"
  by (auto simp: makedirs_def split: option.splits node.splits)

lemma makedirs_error: "makedirs fs p = Inl e \<Longrightarrow> e = FileExistsError p"
  by (auto simp: makedirs_def split: option.splits node.splits)

lemma read_docs_ok:
  "\<forall>p \<in> set ps. readable entries p \<Longrightarrow>
     read_docs entries ps docs meta =
       Inr (docs @ filter (\<lambda>t. t \<noteq> []) (map (stripped entries) ps),
            meta @ map (\<lambda>p. JDict [(cp ''source'', JStr (basename p))])
                     (filter (\<lambda>p. stripped entries p \<noteq> []) ps))"
proof (induction ps arbitrary: docs meta)
  case Nil
  then show ?case by simp
next
  case (Cons p ps)
  from Cons.prems obtain raw where raw: "read_text entries p = Inr raw"
    by (auto simp: readable_def split: sum.splits)
  then have s: "stripped entries p = strip raw"
    by (simp add: stripped_def)
  show ?case
    using Cons.IH Cons.prems by (simp add: raw s Let_def)
qed

lemma read_docs_fail:
  "\<not> (\<forall>p \<in> set ps. readable entries p) \<Longrightarrow>
     \<exists>e p. read_docs entries ps docs meta = Inl e \<and> p \<in> set ps \<and> read_text entries p = Inl e"
proof (induction ps arbitrary: docs meta)
  case Nil
  then show ?case by simp
next
  case (Cons p ps)
  show ?case
  proof (cases "read_text entries p")
    case (Inl e)
    then show ?thesis by auto
  next
    case (Inr raw)
    then have "readable entries p" by (simp add: readable_def)
    with Cons.prems have "\<not> (\<forall>p \<in> set ps. readable entries p)" by simp
    from Cons.IH [OF this] show ?thesis
      using Inr by (simp add: Let_def) blast
  qed
qed

text \<open>What a run of the build does once the output directory is there.\<close>

lemma build_unfold:
  assumes "makedirs fs OUT_DIR = Inr fs0"
  shows "build encode fs =
     (let paths = corpus_paths fs;
          docs = filter (\<lambda>t. t \<noteq> []) (map (stripped (data_dir fs)) paths);
          meta = map (\<lambda>p. JDict [(cp ''source'', JStr (basename p))])
                   (filter (\<lambda>p. stripped (data_dir fs) p \<noteq> []) paths);
          index = index_add (IndexFlatIP (shape1 (encode docs))) (encode docs)
      in if paths = [] then (fs0, Inl (SystemExit ''No .txt files found in ./data''))
         else if \<not> (\<forall>p \<in> set paths. readable (data_dir fs) p)
         then (fs0, Inl (projl (read_docs (data_dir fs) paths [] [])))
         else if docs = [] then (fs0, Inl (SystemExit ''Documents are empty''))
         else if files fs0 (cp ''artifacts/faiss.index'') = Some Directory
         then (fs0, Inl (IsADirectoryError (cp ''artifacts/faiss.index'')))
         else if files fs0 (cp ''artifacts/docs.json'') = Some Directory
         then (fs0\<lparr>files := (files fs0)(cp ''artifacts/faiss.index'' \<mapsto> IndexFile index)\<rparr>,
               Inl (IsADirectoryError (cp ''artifacts/docs.json'')))
         else if files fs0 (cp ''artifacts/meta.json'') = Some Directory
         then (fs0\<lparr>files := (files fs0)(cp ''artifacts/faiss.index'' \<mapsto> IndexFile index,
                                          cp ''artifacts/docs.json'' \<mapsto>
                                            JsonFile (JList (map JStr docs)))\<rparr>,
               Inl (IsADirectoryError (cp ''artifacts/meta.json'')))
         else (fs0\<lparr>files := (files fs0)(cp ''artifacts/faiss.index'' \<mapsto> IndexFile index,
                                        cp ''artifacts/docs.json'' \<mapsto>
                                          JsonFile (JList (map JStr docs)),
                                        cp ''artifacts/meta.json'' \<mapsto> JsonFile (JList meta))\<rparr>,
               Inr (index, JList (map JStr docs), JList meta)))"
proof -
  have dd: "data_dir fs0 = data_dir fs"
    using assms by (rule makedirs_data_dir)
  let ?paths = "corpus_paths fs"
  show ?thesis
  proof (cases "\<forall>p \<in> set ?paths. readable (data_dir fs) p")
    case True
    have "read_docs (data_dir fs) ?paths [] [] =
       Inr (filter (\<lambda>t. t \<noteq> []) (map (stripped (data_dir fs)) ?paths),
            map (\<lambda>p. JDict [(cp ''source'', JStr (basename p))])
              (filter (\<lambda>p. stripped (data_dir fs) p \<noteq> []) ?paths))"
      using read_docs_ok [OF True, of "[]" "[]"] by simp
    then show ?thesis
      using True assms
      by (simp add: build_def dd corpus_paths_def [symmetric] Let_def write_file_def
          artifact_path_names artifact_paths_distinct)
  next
    case False
    from read_docs_fail [OF False, of "[]" "[]"]
    obtain e where "read_docs (data_dir fs) ?paths [] [] = Inl e" by blast
    moreover from False have "?paths \<noteq> []" by auto
    ultimately show ?thesis
      using False assms
      by (simp add: build_def dd corpus_paths_def [symmetric] Let_def)
  qed
qed

lemma build_no_directory:
  assumes "makedirs fs OUT_DIR = Inl e"
  shows "build encode fs = (fs, Inl e)"
  using assms by (simp add: build_def)

lemma read_index_iff: "read_index fs p = Inr index \<longleftrightarrow> files fs p = Some (IndexFile index)"
  by (auto simp: read_index_def split: option.splits node.splits)

lemma json_load_iff: "json_load fs p = Inr v \<longleftrightarrow> files fs p = Some (JsonFile v)"
  by (auto simp: json_load_def split: option.splits node.splits)

lemma load_data_iff:
  "load_data fs = Inr (index, docs, meta) \<longleftrightarrow>
     files fs (cp ''artifacts/faiss.index'') = Some (IndexFile index) \<and>
     files fs (cp ''artifacts/docs.json'') = Some (JsonFile docs) \<and>
     files fs (cp ''artifacts/meta.json'') = Some (JsonFile meta)"
  by (auto simp: load_data_def artifact_path_names read_index_iff [symmetric]
      json_load_iff [symmetric] split: sum.splits)

lemma search_load_iff:
  "search_load fs = Inr (index, docs) \<longleftrightarrow>
     files fs (cp ''artifacts/faiss.index'') = Some (IndexFile index) \<and>
     files fs (cp ''artifacts/docs.json'') = Some (JsonFile docs)"
  by (auto simp: search_load_def INDEX_PATH_def DOCS_PATH_def read_index_iff [symmetric]
      json_load_iff [symmetric] split: sum.splits)

lemma build_success_files:
  assumes "build encode fs = (fs', Inr (index, docs, meta))"
  shows "files fs' (cp ''artifacts/faiss.index'') = Some (IndexFile index) \<and>
         files fs' (cp ''artifacts/docs.json'') = Some (JsonFile docs) \<and>
         files fs' (cp ''artifacts/meta.json'') = Some (JsonFile meta)"
proof (cases "makedirs fs OUT_DIR")
  case (Inl e)
  then show ?thesis using assms by (simp add: build_no_directory)
next
  case (Inr fs0)
  show ?thesis
    using assms unfolding build_unfold [OF Inr] Let_def
    by (auto simp: artifact_paths_distinct split: if_splits)
qed

subsection \<open>The sample corpus, evaluated\<close>

lemma sample_names:
  "cp ''a.txt'' = [97, 46, 116, 120, 116]" "cp ''b.txt'' = [98, 46, 116, 120, 116]"
  "cp ''.txt'' = [46, 116, 120, 116]" "cp ''data'' = [100, 97, 116, 97]"
  "cp ''data/a.txt'' = [100, 97, 116, 97, 47, 97, 46, 116, 120, 116]"
  "cp ''data/b.txt'' = [100, 97, 116, 97, 47, 98, 46, 116, 120, 116]"
  by (simp_all add: cp_def)

lemma sample_match: "match_txt (cp ''a.txt'')" "match_txt (cp ''b.txt'')"
  unfolding sample_names match_txt_def endswith_def by simp_all

lemma sample_join:
  "path_join DATA_DIR (cp ''a.txt'') = cp ''data/a.txt''"
  "path_join DATA_DIR (cp ''b.txt'') = cp ''data/b.txt''"
  by (simp_all add: path_join_def DATA_DIR_def cp_def)

lemma sample_order:
  "cp ''data/a.txt'' < cp ''data/b.txt''"
  "cp ''data/a.txt'' \<le> cp ''data/b.txt''"
  "\<not> cp ''data/b.txt'' \<le> cp ''data/a.txt''"
  unfolding sample_names by simp_all

lemma sample_paths:
  "corpus_paths corpus_ab = [cp ''data/a.txt'', cp ''data/b.txt'']"
  "corpus_paths corpus_ba = [cp ''data/a.txt'', cp ''data/b.txt'']"
  by (simp_all add: sample_order corpus_paths_def corpus_ab_def corpus_ba_def glob_txt_def sample_match
      sample_join)

lemma sample_distinct:
  "cp ''data/a.txt'' \<noteq> cp ''data/b.txt''" "cp ''data/b.txt'' \<noteq> cp ''data/a.txt''"
  using sample_order(1) by auto

lemma sample_read:
  "read_text (data_dir corpus_ab) (cp ''data/a.txt'') = Inr (cp ''  '')"
  "read_text (data_dir corpus_ab) (cp ''data/b.txt'') = Inr (cp '' hello '')"
  using sample_distinct by (simp_all add: read_text_def corpus_ab_def sample_join)

lemma strip_hello_padded: "strip (cp '' hello '') = cp ''hello''"
  by (simp add: strip_def cp_def isspace_def)

lemma sample_stripped:
  "readable (data_dir corpus_ab) (cp ''data/a.txt'')"
  "readable (data_dir corpus_ab) (cp ''data/b.txt'')"
  "stripped (data_dir corpus_ab) (cp ''data/a.txt'') = []"
  "stripped (data_dir corpus_ab) (cp ''data/b.txt'') = cp ''hello''"
  by (simp_all add: readable_def stripped_def sample_read strip_blank strip_hello_padded)

lemma basename_b: "basename (cp ''data/b.txt'') = cp ''b.txt''"
  unfolding sample_names by (simp add: basename_def)

lemma sample_makedirs:
  "makedirs corpus_ab OUT_DIR = Inr (corpus_ab\<lparr>files := [OUT_DIR \<mapsto> Directory]\<rparr>)"
  by (simp add: makedirs_def corpus_ab_def)

lemma hello_nonempty: "cp ''hello'' \<noteq> []"
  by (simp add: cp_def)

lemma sample_index:
  "index_add (IndexFlatIP (shape1 (const_encode [cp ''hello'']))) (const_encode [cp ''hello''])
     = one_row"
  by (simp add: const_encode_def shape1_def IndexFlatIP_def index_add_def one_row_def)

lemma sample_build:
  "build const_encode corpus_ab =
     (corpus_ab_built,
      Inr (one_row, JList [JStr (cp ''hello'')], JList [JDict [(cp ''source'', JStr (cp ''b.txt''))]]))"
  unfolding build_unfold [OF sample_makedirs]
  by (simp add: Let_def sample_paths sample_stripped hello_nonempty basename_b sample_index
      artifact_paths_distinct [symmetric] corpus_ab_built_def)

subsection \<open>Empty files and empty corpora\<close>

lemma read_docs_error_kind:
  assumes "\<not> (\<forall>p \<in> set ps. readable entries p)"
  shows "projl (read_docs entries ps docs meta) \<noteq> SystemExit msg"
proof -
  from read_docs_fail [OF assms, of docs meta]
  obtain e p where "read_docs entries ps docs meta = Inl e" "read_text entries p = Inl e"
    by blast
  then show ?thesis
    using read_text_error [of entries p e] by auto
qed

lemma no_docs_iff:
  "filter (\<lambda>t. t \<noteq> []) (map (stripped entries) ps) = [] \<longleftrightarrow>
     (\<forall>p \<in> set ps. stripped entries p = [])"
  by (auto simp: filter_empty_conv)

lemma length_kept:
  "length (filter (\<lambda>t. t \<noteq> []) (map (stripped entries) ps)) =
     length (filter (\<lambda>p. stripped entries p \<noteq> []) ps)"
  by (induction ps) simp_all

text \<open>
  Claim C7, as amended. The build ends with its \<open>SystemExit\<close> for an empty corpus
  exactly when the output directory is there or can be made and the listing of
  \<^verbatim>\<open>*.txt\<close> files is empty or every listed file was read and stripped to empty. A file
  that strips to empty raises nothing and is left out: a successful build holds, in the
  order of the sorted paths, the stripped text and the file name of every other file,
  and it writes nothing but the output directory and the three artifacts, so no record
  of the files left out exists. When the output directory is there or can be made, every
  listed file can be read, one of them is not empty and no artifact path is taken by a
  directory, the build succeeds, and the listed files are the documents and the files
  left out.
\<close>

theorem build_skips_empty_files:
  "((\<exists>msg. snd (build encode fs) = Inl (SystemExit msg)) \<longleftrightarrow>
      (files fs OUT_DIR = None \<or> files fs OUT_DIR = Some Directory) \<and>
      (corpus_paths fs = [] \<or>
       (\<forall>p \<in> set (corpus_paths fs).
          readable (data_dir fs) p \<and> stripped (data_dir fs) p = []))) \<and>
   (\<forall>fs' index docs meta.
      build encode fs = (fs', Inr (index, docs, meta)) \<longrightarrow>
        docs = JList (map JStr (filter (\<lambda>t. t \<noteq> [])
                 (map (stripped (data_dir fs)) (corpus_paths fs)))) \<and>
        meta = JList (map (\<lambda>p. JDict [(cp ''source'', JStr (basename p))])
                 (filter (\<lambda>p. stripped (data_dir fs) p \<noteq> []) (corpus_paths fs))) \<and>
        data_dir fs' = data_dir fs \<and>
        (\<forall>p. p \<notin> set artifact_paths \<and> p \<noteq> OUT_DIR \<longrightarrow> files fs' p = files fs p)) \<and>
   ((files fs OUT_DIR = None \<or> files fs OUT_DIR = Some Directory) \<and>
    (\<forall>p \<in> set (corpus_paths fs). readable (data_dir fs) p) \<and>
    (\<exists>p \<in> set (corpus_paths fs). stripped (data_dir fs) p \<noteq> []) \<and>
    (\<forall>p \<in> set artifact_paths. files fs p \<noteq> Some Directory) \<longrightarrow>
      (\<exists>fs' index docs meta.
         build encode fs = (fs', Inr (index, JList (map JStr docs), meta)) \<and>
         length docs =
           length (filter (\<lambda>p. stripped (data_dir fs) p \<noteq> []) (corpus_paths fs)) \<and>
         length docs +
           length (filter (\<lambda>p. stripped (data_dir fs) p = []) (corpus_paths fs)) =
           length (corpus_paths fs)))"
proof (cases "makedirs fs OUT_DIR")
  case (Inl e)
  then have "build encode fs = (fs, Inl e)" "e = FileExistsError OUT_DIR"
    by (simp_all add: build_no_directory makedirs_error)
  moreover have "\<not> (files fs OUT_DIR = None \<or> files fs OUT_DIR = Some Directory)"
    using Inl makedirs_ok_iff [of fs OUT_DIR] by simp
  ultimately show ?thesis by simp
next
  case (Inr fs0)
  let ?paths = "corpus_paths fs"
  let ?docs = "filter (\<lambda>t. t \<noteq> []) (map (stripped (data_dir fs)) ?paths)"
  note unfold = build_unfold [OF Inr, of encode]
  have dir: "files fs OUT_DIR = None \<or> files fs OUT_DIR = Some Directory"
    using Inr makedirs_ok_iff [of fs OUT_DIR] by blast
  have a: "(\<exists>msg. snd (build encode fs) = Inl (SystemExit msg)) \<longleftrightarrow>
          ?paths = [] \<or>
          (\<forall>p \<in> set ?paths. readable (data_dir fs) p \<and> stripped (data_dir fs) p = [])"
  proof (cases "?paths = []")
    case True
    then show ?thesis by (simp add: unfold)
  next
    case paths: False
    show ?thesis
    proof (cases "\<forall>p \<in> set ?paths. readable (data_dir fs) p")
      case False
      then show ?thesis
        using paths read_docs_error_kind [OF False] by (auto simp: unfold)
    next
      case True
      show ?thesis
      proof (cases "?docs = []")
        case True
        then have "\<forall>p \<in> set ?paths. stripped (data_dir fs) p = []"
          using no_docs_iff [of "data_dir fs" ?paths] by blast
        then show ?thesis
          using paths \<open>\<forall>p \<in> set ?paths. readable (data_dir fs) p\<close> True
          by (simp add: unfold)
      next
        case False
        then have "\<not> (\<forall>p \<in> set ?paths. stripped (data_dir fs) p = [])"
          using no_docs_iff [of "data_dir fs" ?paths] by blast
        then show ?thesis
          using paths True False by (auto simp: unfold Let_def)
      qed
    qed
  qed
  have b: "\<forall>fs' index docs meta.
          build encode fs = (fs', Inr (index, docs, meta)) \<longrightarrow>
            docs = JList (map JStr ?docs) \<and>
            meta = JList (map (\<lambda>p. JDict [(cp ''source'', JStr (basename p))])
                     (filter (\<lambda>p. stripped (data_dir fs) p \<noteq> []) ?paths)) \<and>
            data_dir fs' = data_dir fs \<and>
            (\<forall>p. p \<notin> set artifact_paths \<and> p \<noteq> OUT_DIR \<longrightarrow> files fs' p = files fs p)"
    unfolding unfold Let_def
    using makedirs_data_dir [OF Inr] makedirs_files [OF Inr]
    by (auto simp: artifact_paths_eq split: if_splits)
  have c: "(\<forall>p \<in> set ?paths. readable (data_dir fs) p) \<and>
        (\<exists>p \<in> set ?paths. stripped (data_dir fs) p \<noteq> []) \<and>
        (\<forall>p \<in> set artifact_paths. files fs p \<noteq> Some Directory) \<longrightarrow>
          (\<exists>fs' index docs meta.
             build encode fs = (fs', Inr (index, JList (map JStr docs), meta)) \<and>
             length docs = length (filter (\<lambda>p. stripped (data_dir fs) p \<noteq> []) ?paths) \<and>
             length docs + length (filter (\<lambda>p. stripped (data_dir fs) p = []) ?paths) =
               length ?paths)"
  proof
    assume h: "(\<forall>p \<in> set ?paths. readable (data_dir fs) p) \<and>
        (\<exists>p \<in> set ?paths. stripped (data_dir fs) p \<noteq> []) \<and>
        (\<forall>p \<in> set artifact_paths. files fs p \<noteq> Some Directory)"
    then have paths: "?paths \<noteq> []" by auto
    from h have docs: "?docs \<noteq> []"
      using no_docs_iff [of "data_dir fs" ?paths] by blast
    have free: "files fs0 (cp ''artifacts/faiss.index'') \<noteq> Some Directory"
      "files fs0 (cp ''artifacts/docs.json'') \<noteq> Some Directory"
      "files fs0 (cp ''artifacts/meta.json'') \<noteq> Some Directory"
      using h makedirs_files [OF Inr] artifact_paths_distinct(7-9)
      by (simp_all add: artifact_paths_eq)
    have "length ?docs + length (filter (\<lambda>p. stripped (data_dir fs) p = []) ?paths) =
            length ?paths"
      using sum_length_filter_compl [of "\<lambda>p. stripped (data_dir fs) p \<noteq> []" ?paths]
      by (simp add: comp_def)
    moreover have "length ?docs = length (filter (\<lambda>p. stripped (data_dir fs) p \<noteq> []) ?paths)"
      by (rule length_kept)
    moreover have "\<exists>fs' index meta. build encode fs = (fs', Inr (index, JList (map JStr ?docs), meta))"
      using h paths docs free by (simp add: unfold Let_def)
    ultimately show "\<exists>fs' index docs meta.
             build encode fs = (fs', Inr (index, JList (map JStr docs), meta)) \<and>
             length docs = length (filter (\<lambda>p. stripped (data_dir fs) p \<noteq> []) ?paths) \<and>
             length docs + length (filter (\<lambda>p. stripped (data_dir fs) p = []) ?paths) =
               length ?paths"
      by blast
  qed
  show ?thesis
    using a b c dir by blast
qed


theorem build_skips_empty_files_witness:
  "files corpus_ab OUT_DIR = None \<and>
   corpus_paths corpus_ab = [cp ''data/a.txt'', cp ''data/b.txt''] \<and>
   stripped (data_dir corpus_ab) (cp ''data/a.txt'') = [] \<and>
   stripped (data_dir corpus_ab) (cp ''data/b.txt'') = cp ''hello'' \<and>
   \<not> (\<exists>msg. snd (build const_encode corpus_ab) = Inl (SystemExit msg)) \<and>
   (\<exists>fs' index docs meta.
      build const_encode corpus_ab = (fs', Inr (index, JList (map JStr docs), meta)) \<and>
      docs = [cp ''hello''] \<and> meta = JList [JDict [(cp ''source'', JStr (cp ''b.txt''))]] \<and>
      length docs = 1 \<and> length docs + 1 = length (corpus_paths corpus_ab))"
proof -
  note inst = build_skips_empty_files [of const_encode corpus_ab]
  have dir: "files corpus_ab OUT_DIR = None"
    by (simp add: corpus_ab_def)
  have free: "\<forall>p \<in> set artifact_paths. files corpus_ab p \<noteq> Some Directory"
    by (simp add: corpus_ab_def)
  have "\<not> (\<exists>msg. snd (build const_encode corpus_ab) = Inl (SystemExit msg))"
    using inst by (simp add: sample_paths sample_stripped hello_nonempty)
  moreover have "\<exists>fs' index docs meta.
      build const_encode corpus_ab = (fs', Inr (index, JList (map JStr docs), meta)) \<and>
      length docs = 1 \<and> length docs + 1 = length (corpus_paths corpus_ab)"
    using inst free dir
    by (auto simp: sample_paths sample_stripped hello_nonempty)
  then have "\<exists>fs' index docs meta.
      build const_encode corpus_ab = (fs', Inr (index, JList (map JStr docs), meta)) \<and>
      docs = [cp ''hello''] \<and> meta = JList [JDict [(cp ''source'', JStr (cp ''b.txt''))]] \<and>
      length docs = 1 \<and> length docs + 1 = length (corpus_paths corpus_ab)"
    using sample_build by (auto simp: map_eq_Cons_conv)
  ultimately show ?thesis
    using dir sample_paths(1) sample_stripped(3,4) by blast
qed

lemma corpus_b_build:
  "snd (build const_encode corpus_b) =
     Inr (one_row, JList [JStr (cp ''hello'')], JList [JDict [(cp ''source'', JStr (cp ''b.txt''))]])"
  "files (fst (build const_encode corpus_b)) = files corpus_ab_built"
proof -
  have fl: "files corpus_b = Map.empty"
    by (simp add: corpus_b_def)
  then have mk: "makedirs corpus_b OUT_DIR = Inr (corpus_b\<lparr>files := [OUT_DIR \<mapsto> Directory]\<rparr>)"
    by (simp add: makedirs_def)
  have dd: "data_dir corpus_b = [(cp ''b.txt'', Text (cp '' hello ''))]"
    by (simp add: corpus_b_def)
  have paths: "corpus_paths corpus_b = [cp ''data/b.txt'']"
    by (simp add: corpus_paths_def dd glob_txt_def sample_match sample_join)
  have "read_text (data_dir corpus_b) (cp ''data/b.txt'') = Inr (cp '' hello '')"
    by (simp add: read_text_def dd sample_join)
  then have rd: "readable (data_dir corpus_b) (cp ''data/b.txt'')"
    "stripped (data_dir corpus_b) (cp ''data/b.txt'') = cp ''hello''"
    by (simp_all add: readable_def stripped_def strip_hello_padded)
  have "build const_encode corpus_b =
     (corpus_b\<lparr>files := [OUT_DIR \<mapsto> Directory,
                            cp ''artifacts/faiss.index'' \<mapsto> IndexFile one_row,
                            cp ''artifacts/docs.json'' \<mapsto> JsonFile (JList [JStr (cp ''hello'')]),
                            cp ''artifacts/meta.json'' \<mapsto>
                              JsonFile (JList [JDict [(cp ''source'', JStr (cp ''b.txt''))]])]\<rparr>,
      Inr (one_row, JList [JStr (cp ''hello'')], JList [JDict [(cp ''source'', JStr (cp ''b.txt''))]]))"
    unfolding build_unfold [OF mk]
    by (simp add: Let_def paths rd hello_nonempty basename_b sample_index
        artifact_paths_distinct [symmetric])
  then show "snd (build const_encode corpus_b) =
     Inr (one_row, JList [JStr (cp ''hello'')], JList [JDict [(cp ''source'', JStr (cp ''b.txt''))]])"
    and "files (fst (build const_encode corpus_b)) = files corpus_ab_built"
    by (simp_all add: corpus_ab_built_def)
qed

text \<open>
  The claim speaks of every corpus directory, of an \<open>EmptyCorpusError\<close> and of a record
  of the skipped files. With a regular file at the path of the output directory and
  an empty listing the build ends with \<open>FileExistsError\<close>, not with the error of an empty
  corpus. And the corpus with the empty file and the corpus without it build the same
  store and leave the same files: nothing tells that a file was skipped.
\<close>

theorem build_skips_empty_files_counterexample:
  "corpus_paths blocked_out = [] \<and>
   build const_encode blocked_out = (blocked_out, Inl (FileExistsError OUT_DIR)) \<and>
   length (data_dir corpus_ab) = 2 \<and> length (data_dir corpus_b) = 1 \<and>
   snd (build const_encode corpus_ab) = snd (build const_encode corpus_b) \<and>
   files (fst (build const_encode corpus_ab)) = files (fst (build const_encode corpus_b))"
proof -
  have "makedirs blocked_out OUT_DIR = Inl (FileExistsError OUT_DIR)"
    by (simp add: makedirs_def blocked_out_def)
  then have "build const_encode blocked_out = (blocked_out, Inl (FileExistsError OUT_DIR))"
    by (rule build_no_directory)
  moreover have "corpus_paths blocked_out = []"
    by (simp add: corpus_paths_def blocked_out_def glob_txt_def)
  moreover have "length (data_dir corpus_ab) = 2" "length (data_dir corpus_b) = 1"
    by (simp_all add: corpus_ab_def corpus_b_def)
  ultimately show ?thesis
    by (simp add: sample_build corpus_b_build)
qed

subsection \<open>Loading what a build wrote\<close>

text \<open>
  Claim C3. When a build succeeds, both loaders read back from the file system it
  leaves exactly what it held in memory: \<open>load_data\<close> returns the same index, documents
  and metadata, the command-line loader the same index and documents. Nothing is
  normalised or reordered on the way, so a search of the loaded index returns, for every
  batch of query vectors and every \<open>k\<close>, what the same search of the built index returns.
  The serialisation itself is the libraries': \<^verbatim>\<open>faiss.read_index\<close> and \<^verbatim>\<open>json.load\<close> are
  taken to read back what \<^verbatim>\<open>faiss.write_index\<close> and \<^verbatim>\<open>json.dump\<close> wrote.
\<close>

theorem build_load_round_trip:
  assumes "build encode fs = (fs', Inr (index, docs, meta))"
  shows "load_data fs' = Inr (index, docs, meta) \<and>
         search_load fs' = Inr (index, docs) \<and>
         (case load_data fs' of
            Inl e \<Rightarrow> False
          | Inr (index', docs', meta') \<Rightarrow>
              index_search fip index' xq k = index_search fip index xq k \<and>
              docs' = docs \<and> meta' = meta)"
proof -
  note written = build_success_files [OF assms]
  have "load_data fs' = Inr (index, docs, meta)"
    using written by (simp only: load_data_iff)
  moreover have "search_load fs' = Inr (index, docs)"
    using written by (simp only: search_load_iff)
  ultimately show ?thesis by simp
qed

theorem build_load_round_trip_witness:
  "build const_encode corpus_ab =
     (corpus_ab_built,
      Inr (one_row, JList [JStr (cp ''hello'')], JList [JDict [(cp ''source'', JStr (cp ''b.txt''))]])) \<and>
   load_data corpus_ab_built =
     Inr (one_row, JList [JStr (cp ''hello'')], JList [JDict [(cp ''source'', JStr (cp ''b.txt''))]]) \<and>
   search_load corpus_ab_built = Inr (one_row, JList [JStr (cp ''hello'')])"
  using build_load_round_trip [OF sample_build] sample_build by simp

subsection \<open>What a failed build leaves behind\<close>






subsection \<open>Loading\<close>

lemma read_error_kind:
  assumes "read_index fs p = Inl e \<or> json_load fs p = Inl e"
  shows "files fs p = None \<and> e = FileNotFoundError p \<or>
         files fs p = Some Directory \<and> e = IsADirectoryError p \<or>
         (\<exists>n. files fs p = Some n \<and> n \<noteq> Directory) \<and> e = ParseError p"
  using assms
  by (auto simp: read_index_def json_load_def split: option.splits node.splits)

text \<open>
  Claim C6, as amended. \<open>load_data\<close> reads the index, the document list and the
  metadata in this order and compares nothing. It succeeds exactly when the first path
  holds an index file and the other two hold JSON texts, and returns what the files hold,
  whatever the shape of the two JSON values and whatever the three row counts.
  Otherwise it fails with the error of the first read that fails, in this order: the
  index's, whatever the other two files are; the document list's when the index was
  read; the metadata's when both were read. That error is the one of a missing file, of
  a directory or of a file that does not parse. The command-line loader reads the index
  and the document list only.
\<close>

theorem load_data_outcomes:
  "(load_data fs = Inr (index, docs, meta) \<longleftrightarrow>
      files fs (cp ''artifacts/faiss.index'') = Some (IndexFile index) \<and>
      files fs (cp ''artifacts/docs.json'') = Some (JsonFile docs) \<and>
      files fs (cp ''artifacts/meta.json'') = Some (JsonFile meta)) \<and>
   (\<forall>e. read_index fs (cp ''artifacts/faiss.index'') = Inl e \<longrightarrow> load_data fs = Inl e) \<and>
   (\<forall>e. (\<exists>i. read_index fs (cp ''artifacts/faiss.index'') = Inr i) \<and>
        json_load fs (cp ''artifacts/docs.json'') = Inl e \<longrightarrow> load_data fs = Inl e) \<and>
   (\<forall>e. (\<exists>i. read_index fs (cp ''artifacts/faiss.index'') = Inr i) \<and>
        (\<exists>d. json_load fs (cp ''artifacts/docs.json'') = Inr d) \<and>
        json_load fs (cp ''artifacts/meta.json'') = Inl e \<longrightarrow> load_data fs = Inl e) \<and>
   (\<forall>p e. read_index fs p = Inl e \<or> json_load fs p = Inl e \<longrightarrow>
        files fs p = None \<and> e = FileNotFoundError p \<or>
        files fs p = Some Directory \<and> e = IsADirectoryError p \<or>
        (\<exists>n. files fs p = Some n \<and> n \<noteq> Directory) \<and> e = ParseError p) \<and>
   (\<forall>p i. read_index fs p = Inr i \<longleftrightarrow> files fs p = Some (IndexFile i)) \<and>
   (\<forall>p v. json_load fs p = Inr v \<longleftrightarrow> files fs p = Some (JsonFile v)) \<and>
   (search_load fs = Inr (index, docs) \<longleftrightarrow>
      files fs (cp ''artifacts/faiss.index'') = Some (IndexFile index) \<and>
      files fs (cp ''artifacts/docs.json'') = Some (JsonFile docs))"
proof (intro conjI)
  show "\<forall>e. read_index fs (cp ''artifacts/faiss.index'') = Inl e \<longrightarrow> load_data fs = Inl e"
    by (simp add: load_data_def artifact_path_names)
  show "\<forall>e. (\<exists>i. read_index fs (cp ''artifacts/faiss.index'') = Inr i) \<and>
        json_load fs (cp ''artifacts/docs.json'') = Inl e \<longrightarrow> load_data fs = Inl e"
    by (auto simp: load_data_def artifact_path_names)
  show "\<forall>e. (\<exists>i. read_index fs (cp ''artifacts/faiss.index'') = Inr i) \<and>
        (\<exists>d. json_load fs (cp ''artifacts/docs.json'') = Inr d) \<and>
        json_load fs (cp ''artifacts/meta.json'') = Inl e \<longrightarrow> load_data fs = Inl e"
    by (auto simp: load_data_def artifact_path_names)
  show "\<forall>p e. read_index fs p = Inl e \<or> json_load fs p = Inl e \<longrightarrow>
        files fs p = None \<and> e = FileNotFoundError p \<or>
        files fs p = Some Directory \<and> e = IsADirectoryError p \<or>
        (\<exists>n. files fs p = Some n \<and> n \<noteq> Directory) \<and> e = ParseError p"
    using read_error_kind by blast
  show "\<forall>p i. read_index fs p = Inr i \<longleftrightarrow> files fs p = Some (IndexFile i)"
    by (simp add: read_index_iff)
  show "\<forall>p v. json_load fs p = Inr v \<longleftrightarrow> files fs p = Some (JsonFile v)"
    by (simp add: json_load_iff)
qed (rule load_data_iff search_load_iff)+

lemma mismatched_files:
  "files mismatched (cp ''artifacts/faiss.index'') = Some (IndexFile two_rows)"
  "files mismatched (cp ''artifacts/docs.json'') = Some (JsonFile (JList [JStr (cp ''doc'')]))"
  "files mismatched (cp ''artifacts/meta.json'') = Some (JsonFile (JList []))"
  by (simp_all add: mismatched_def artifact_paths_distinct artifact_paths_distinct [symmetric])

lemma other_shape_files:
  "files other_shape (cp ''artifacts/faiss.index'') = Some (IndexFile one_row)"
  "files other_shape (cp ''artifacts/docs.json'') = Some (JsonFile (JInt 7))"
  "files other_shape (cp ''artifacts/meta.json'') = Some (JsonFile (JList [JStr (cp ''doc'')]))"
  by (simp_all add: other_shape_def artifact_paths_distinct artifact_paths_distinct [symmetric])

lemma no_corpus_reads:
  "read_index no_corpus (cp ''artifacts/faiss.index'') =
     Inl (FileNotFoundError (cp ''artifacts/faiss.index''))"
  by (simp add: read_index_def no_corpus_def)

lemma index_only_reads:
  "read_index index_only (cp ''artifacts/faiss.index'') = Inr one_row"
  "json_load index_only (cp ''artifacts/docs.json'') =
     Inl (FileNotFoundError (cp ''artifacts/docs.json''))"
  by (simp_all add: read_index_def json_load_def index_only_def artifact_paths_distinct
      artifact_paths_distinct [symmetric])

lemma no_meta_reads:
  "read_index no_meta (cp ''artifacts/faiss.index'') = Inr one_row"
  "json_load no_meta (cp ''artifacts/docs.json'') = Inr (JList [JStr (cp ''doc'')])"
  "json_load no_meta (cp ''artifacts/meta.json'') =
     Inl (FileNotFoundError (cp ''artifacts/meta.json''))"
  by (simp_all add: read_index_def json_load_def no_meta_def artifact_paths_distinct
      artifact_paths_distinct [symmetric])

theorem load_data_outcomes_witness:
  "load_data mismatched = Inr (two_rows, JList [JStr (cp ''doc'')], JList []) \<and>
   load_data other_shape = Inr (one_row, JInt 7, JList [JStr (cp ''doc'')]) \<and>
   files no_corpus (cp ''artifacts/docs.json'') = None \<and>
   files no_corpus (cp ''artifacts/meta.json'') = None \<and>
   load_data no_corpus = Inl (FileNotFoundError (cp ''artifacts/faiss.index'')) \<and>
   files index_only (cp ''artifacts/meta.json'') = None \<and>
   load_data index_only = Inl (FileNotFoundError (cp ''artifacts/docs.json'')) \<and>
   load_data no_meta = Inl (FileNotFoundError (cp ''artifacts/meta.json''))"
proof -
  have "load_data mismatched = Inr (two_rows, JList [JStr (cp ''doc'')], JList [])"
    using load_data_outcomes [of mismatched two_rows "JList [JStr (cp ''doc'')]" "JList []"]
      mismatched_files
    by blast
  moreover have "load_data other_shape = Inr (one_row, JInt 7, JList [JStr (cp ''doc'')])"
    using load_data_outcomes [of other_shape one_row "JInt 7" "JList [JStr (cp ''doc'')]"]
      other_shape_files
    by blast
  moreover have "load_data no_corpus = Inl (FileNotFoundError (cp ''artifacts/faiss.index''))"
    using load_data_outcomes [of no_corpus] no_corpus_reads by blast
  moreover have "load_data index_only = Inl (FileNotFoundError (cp ''artifacts/docs.json''))"
    using load_data_outcomes [of index_only] index_only_reads by blast
  moreover have "load_data no_meta = Inl (FileNotFoundError (cp ''artifacts/meta.json''))"
    using load_data_outcomes [of no_meta] no_meta_reads by blast
  moreover have "files no_corpus (cp ''artifacts/docs.json'') = None"
    "files no_corpus (cp ''artifacts/meta.json'') = None"
    by (simp_all add: no_corpus_def)
  moreover have "files index_only (cp ''artifacts/meta.json'') = None"
    by (simp add: index_only_def artifact_paths_distinct artifact_paths_distinct [symmetric])
  ultimately show ?thesis by blast
qed

text \<open>
  The claim has the load fail when the row counts disagree, and when any of the three
  artifacts is absent. An index of two rows beside one document and no metadata loads;
  and the command-line loader succeeds with no metadata file at all.
\<close>

theorem load_data_outcomes_counterexample:
  "load_data mismatched = Inr (two_rows, JList [JStr (cp ''doc'')], JList []) \<and>
   ntotal two_rows = 2 \<and> length [JStr (cp ''doc'')] = 1 \<and> length ([] :: json list) = 0 \<and>
   files no_meta (cp ''artifacts/meta.json'') = None \<and>
   search_load no_meta = Inr (one_row, JList [JStr (cp ''doc'')])"
proof -
  have "load_data mismatched = Inr (two_rows, JList [JStr (cp ''doc'')], JList [])"
    using mismatched_files by (simp only: load_data_iff)
  moreover have "search_load no_meta = Inr (one_row, JList [JStr (cp ''doc'')])"
    by (simp add: search_load_iff no_meta_def artifact_paths_distinct
        artifact_paths_distinct [symmetric])
  moreover have "files no_meta (cp ''artifacts/meta.json'') = None"
    by (simp add: no_meta_def artifact_paths_distinct artifact_paths_distinct [symmetric])
  ultimately show ?thesis
    by (simp add: ntotal_def two_rows_def)
qed

subsection \<open>The order of the rows\<close>

lemma prefix_less: "(pre @ a < pre @ b) \<longleftrightarrow> (a < (b :: nat list))"
  by (induction pre) simp_all

lemma path_join_less: "path_join d a < path_join d b \<longleftrightarrow> a < b"
  using prefix_less [of "d @ [47]" a b] by (simp add: path_join_def)

lemma path_join_inj: "inj_on (path_join d) A"
  by (simp add: inj_on_def path_join_def)

lemma basename_path_join: "47 \<notin> set n \<Longrightarrow> basename (path_join d n) = n"
proof -
  assume "47 \<notin> set n"
  then have "takeWhile (\<lambda>c. c \<noteq> 47) (rev n @ 47 # rev d) = rev n"
    by (subst takeWhile_append2) auto
  then show ?thesis by (simp add: basename_def path_join_def)
qed

lemma sort_mset_cong: "mset xs = mset ys \<Longrightarrow> sort xs = sort (ys :: 'a :: linorder list)"
  by (rule properties_for_sort) simp_all

lemma glob_txt_mset:
  assumes "mset d2 = mset d"
  shows "mset (glob_txt dir d2) = mset (glob_txt dir d)"
  using assms by (simp add: glob_txt_def)

lemma read_text_perm:
  assumes "distinct (map fst d)" and "mset d2 = mset d"
  shows "read_text d2 p = read_text d p"
proof -
  let ?E = "map (\<lambda>(name, e). (path_join DATA_DIR name, e))"
  have fst: "map fst (?E xs) = map (path_join DATA_DIR) (map fst xs)" for xs :: "(pystr \<times> entry) list"
    by (induction xs) auto
  have "distinct (map (path_join DATA_DIR) (map fst d))"
    using assms(1) by (subst distinct_map) (simp add: path_join_inj)
  then have d1: "distinct (map fst (?E d))"
    by (simp only: fst)
  have m: "mset (?E d2) = mset (?E d)"
    using assms(2) by simp
  have "mset (map fst (?E d2)) = mset (map fst (?E d))"
    using assms(2) by simp
  then have d2: "distinct (map fst (?E d2))"
    using d1 by (rule mset_eq_imp_distinct_iff [THEN iffD2])
  have "set (?E d2) = set (?E d)"
    using m by (rule mset_eq_setD)
  then have "map_of (?E d2) = map_of (?E d)"
    using d1 d2 by (simp add: map_of_inject_set)
  then show ?thesis
    by (simp add: read_text_def)
qed

lemma read_docs_cong:
  "\<forall>p. read_text d2 p = read_text d p \<Longrightarrow> read_docs d2 ps docs meta = read_docs d ps docs meta"
  by (induction ps arbitrary: docs meta) (simp_all add: Let_def split: sum.splits)

lemma makedirs_listing:
  "makedirs (fs\<lparr>data_dir := d2\<rparr>) p =
     (case makedirs fs p of Inl e \<Rightarrow> Inl e | Inr fs0 \<Rightarrow> Inr (fs0\<lparr>data_dir := d2\<rparr>))"
  by (simp add: makedirs_def split: option.splits node.splits)

lemma build_listing_order:
  assumes "sort (glob_txt DATA_DIR d2) = sort (glob_txt DATA_DIR (data_dir fs))"
    and "\<forall>p. read_text d2 p = read_text (data_dir fs) p"
  shows "snd (build encode (fs\<lparr>data_dir := d2\<rparr>)) = snd (build encode fs) \<and>
         files (fst (build encode (fs\<lparr>data_dir := d2\<rparr>))) = files (fst (build encode fs))"
proof (cases "makedirs fs OUT_DIR")
  case (Inl e)
  then have "makedirs (fs\<lparr>data_dir := d2\<rparr>) OUT_DIR = Inl e"
    by (simp add: makedirs_listing)
  then show ?thesis
    using Inl by (simp add: build_no_directory)
next
  case (Inr fs0)
  then have mk: "makedirs (fs\<lparr>data_dir := d2\<rparr>) OUT_DIR = Inr (fs0\<lparr>data_dir := d2\<rparr>)"
    by (simp add: makedirs_listing)
  have paths: "corpus_paths (fs\<lparr>data_dir := d2\<rparr>) = corpus_paths fs"
    using assms(1) by (simp add: corpus_paths_def)
  have r: "readable d2 = readable (data_dir fs)" "stripped d2 = stripped (data_dir fs)"
    using assms(2) by (simp_all add: readable_def stripped_def fun_eq_iff)
  have rd: "read_docs d2 ps [] [] = read_docs (data_dir fs) ps [] []" for ps
    using assms(2) by (rule read_docs_cong)
  show ?thesis
    unfolding build_unfold [OF mk] build_unfold [OF Inr]
    by (simp add: Let_def paths r rd)
qed

lemma corpus_paths_names:
  assumes "p \<in> set (corpus_paths fs)"
  shows "path_join DATA_DIR (basename p) = p"
proof -
  from assms obtain n where "p = path_join DATA_DIR n" "match_txt n"
    by (auto simp: corpus_paths_def glob_txt_def)
  then show ?thesis
    by (simp add: basename_path_join match_txt_def)
qed

lemma corpus_paths_strict:
  assumes "distinct (map fst (data_dir fs))"
  shows "sorted_wrt (<) (corpus_paths fs)"
proof -
  have "distinct (filter match_txt (map fst (data_dir fs)))"
    using assms by (rule distinct_filter)
  then have "distinct (glob_txt DATA_DIR (data_dir fs))"
    unfolding glob_txt_def by (subst distinct_map) (simp add: path_join_inj)
  then show ?thesis
    by (simp add: corpus_paths_def strict_sorted_iff)
qed

lemma corpus_names_strict:
  assumes "distinct (map fst (data_dir fs))"
  shows "sorted_wrt (<) (map basename (filter P (corpus_paths fs)))"
proof -
  have "sorted_wrt (<) (filter P (corpus_paths fs))"
    using corpus_paths_strict [OF assms] by (rule sorted_wrt_filter)
  then have "sorted_wrt (\<lambda>a b. basename a < basename b) (filter P (corpus_paths fs))"
  proof (rule sorted_wrt_mono_rel [rotated])
    fix a b
    assume "a \<in> set (filter P (corpus_paths fs))" "b \<in> set (filter P (corpus_paths fs))" "a < b"
    then have "a \<in> set (corpus_paths fs)" "b \<in> set (corpus_paths fs)" "a < b"
      by simp_all
    then have "path_join DATA_DIR (basename a) < path_join DATA_DIR (basename b)"
      using corpus_paths_names [of a fs] corpus_paths_names [of b fs] by simp
    then show "basename a < basename b"
      by (simp only: path_join_less)
  qed
  then show ?thesis
    by (simp add: sorted_wrt_map)
qed

lemma makedirs_made: "makedirs fs p = Inr fs0 \<Longrightarrow> files fs0 p = Some Directory"
  by (auto simp: makedirs_def split: option.splits node.splits)

lemma build_again:
  assumes "build encode fs = (fs1, Inr st)"
    and "sort (glob_txt DATA_DIR d2) = sort (glob_txt DATA_DIR (data_dir fs))"
    and "\<forall>p. read_text d2 p = read_text (data_dir fs) p"
  shows "build encode (fs1\<lparr>data_dir := d2\<rparr>) = (fs1\<lparr>data_dir := d2\<rparr>, Inr st)"
proof -
  obtain fs0 where mk: "makedirs fs OUT_DIR = Inr fs0"
    using assms(1) by (cases "makedirs fs OUT_DIR") (simp_all add: build_no_directory)
  let ?paths = "corpus_paths fs"
  let ?docs = "filter (\<lambda>t. t \<noteq> []) (map (stripped (data_dir fs)) ?paths)"
  let ?meta = "map (\<lambda>p. JDict [(cp ''source'', JStr (basename p))])
                 (filter (\<lambda>p. stripped (data_dir fs) p \<noteq> []) ?paths)"
  let ?index = "index_add (IndexFlatIP (shape1 (encode ?docs))) (encode ?docs)"
  have first: "?paths \<noteq> []" "\<forall>p \<in> set ?paths. readable (data_dir fs) p" "?docs \<noteq> []"
    "st = (?index, JList (map JStr ?docs), JList ?meta)"
    "fs1 = fs0\<lparr>files := (files fs0)(cp ''artifacts/faiss.index'' \<mapsto> IndexFile ?index,
                                        cp ''artifacts/docs.json'' \<mapsto>
                                          JsonFile (JList (map JStr ?docs)),
                                        cp ''artifacts/meta.json'' \<mapsto> JsonFile (JList ?meta))\<rparr>"
    using assms(1) unfolding build_unfold [OF mk] Let_def by (auto split: if_splits)
  have dir: "files fs1 OUT_DIR = Some Directory"
    using makedirs_made [OF mk] by (simp add: first(5) artifact_paths_distinct)
  then have mk2: "makedirs (fs1\<lparr>data_dir := d2\<rparr>) OUT_DIR = Inr (fs1\<lparr>data_dir := d2\<rparr>)"
    by (simp add: makedirs_def)
  have paths: "corpus_paths (fs1\<lparr>data_dir := d2\<rparr>) = ?paths"
    using assms(2) by (simp add: corpus_paths_def)
  have r: "readable d2 = readable (data_dir fs)" "stripped d2 = stripped (data_dir fs)"
    using assms(3) by (simp_all add: readable_def stripped_def fun_eq_iff)
  have held: "files fs1 (cp ''artifacts/faiss.index'') = Some (IndexFile ?index)"
    "files fs1 (cp ''artifacts/docs.json'') = Some (JsonFile (JList (map JStr ?docs)))"
    "files fs1 (cp ''artifacts/meta.json'') = Some (JsonFile (JList ?meta))"
    by (simp_all add: first(5) artifact_paths_distinct)
  have same: "(files fs1)(cp ''artifacts/faiss.index'' \<mapsto> IndexFile ?index,
                         cp ''artifacts/docs.json'' \<mapsto> JsonFile (JList (map JStr ?docs)),
                         cp ''artifacts/meta.json'' \<mapsto> JsonFile (JList ?meta)) = files fs1"
    using held by (auto simp: fun_eq_iff)
  show ?thesis
    unfolding build_unfold [OF mk2]
    using first(1-4) held by (simp add: Let_def paths r same)
qed

text \<open>Reading a listed file, and the rows a build keeps: the files with text.\<close>

lemma read_text_entry:
  assumes "distinct (map fst d)" and "(n, e) \<in> set d"
  shows "read_text d (path_join DATA_DIR n) =
           (case e of Text t \<Rightarrow> Inr t
            | Undecodable \<Rightarrow> Inl (UnicodeDecodeError (path_join DATA_DIR n))
            | Subdir \<Rightarrow> Inl (IsADirectoryError (path_join DATA_DIR n)))"
proof -
  let ?E = "map (\<lambda>(name, e). (path_join DATA_DIR name, e))"
  have fst: "map fst (?E xs) = map (path_join DATA_DIR) (map fst xs)" for xs :: "(pystr \<times> entry) list"
    by (induction xs) auto
  have "distinct (map (path_join DATA_DIR) (map fst d))"
    using assms(1) by (subst distinct_map) (simp add: path_join_inj)
  then have "distinct (map fst (?E d))"
    by (simp only: fst)
  moreover have "(path_join DATA_DIR n, e) \<in> set (?E d)"
    using assms(2) by force
  ultimately have "map_of (?E d) (path_join DATA_DIR n) = Some e"
    by (rule map_of_is_SomeI)
  then show ?thesis
    by (simp add: read_text_def split: entry.splits)
qed

lemma kept_rows:
  assumes "distinct (map fst (data_dir fs))"
  shows "set (map (\<lambda>p. (basename p, stripped (data_dir fs) p))
                (filter (\<lambda>p. stripped (data_dir fs) p \<noteq> []) (corpus_paths fs))) =
           {(n, strip t) | n t. (n, Text t) \<in> set (data_dir fs) \<and> match_txt n \<and> strip t \<noteq> []}"
    (is "?L = ?R")
proof (intro equalityI subsetI)
  fix r assume "r \<in> ?L"
  then obtain p where p: "p \<in> set (corpus_paths fs)" "stripped (data_dir fs) p \<noteq> []"
    "r = (basename p, stripped (data_dir fs) p)"
    by auto
  from p(1) obtain n where n: "p = path_join DATA_DIR n" "match_txt n" "n \<in> fst ` set (data_dir fs)"
    by (auto simp: corpus_paths_def glob_txt_def)
  then obtain e where e: "(n, e) \<in> set (data_dir fs)" by auto
  from p(2) obtain t where t: "read_text (data_dir fs) p = Inr t"
    by (auto simp: stripped_def split: sum.splits)
  then have "e = Text t"
    using read_text_entry [OF assms e] n(1) by (auto split: entry.splits)
  moreover have "basename p = n"
    using n(1,2) by (simp add: basename_path_join match_txt_def)
  moreover have "stripped (data_dir fs) p = strip t"
    using t by (simp add: stripped_def)
  ultimately show "r \<in> ?R"
    using e n(2) p(2,3) by auto
next
  fix r assume "r \<in> ?R"
  then obtain n t where r: "r = (n, strip t)" "(n, Text t) \<in> set (data_dir fs)" "match_txt n"
    "strip t \<noteq> []"
    by auto
  let ?p = "path_join DATA_DIR n"
  have "n \<in> set (map fst (data_dir fs))"
    using r(2) by force
  then have "?p \<in> set (corpus_paths fs)"
    using r(3) by (simp add: corpus_paths_def glob_txt_def)
  moreover have "read_text (data_dir fs) ?p = Inr t"
    using read_text_entry [OF assms r(2)] by simp
  then have "stripped (data_dir fs) ?p = strip t"
    by (simp add: stripped_def)
  moreover have "basename ?p = n"
    using r(3) by (simp add: basename_path_join match_txt_def)
  ultimately show "r \<in> ?L"
    using r(1,4) by force
qed

text \<open>
  Claim C8. The listing of the corpus directory may come in any order. Two runs of the
  build over the same files (the same entries, in whatever order the directory is
  listed the second time) and the same output files end the same way and leave the same
  files behind: the paths are sorted before they are read, so the sorted paths are the
  same and strictly ascending. On success the rows are the files of the corpus that
  match \<^verbatim>\<open>*.txt\<close> and have text, each once, in the strictly ascending order of their
  names: row \<open>i\<close> of the document list is the stripped text of the \<open>i\<close>-th such file,
  row \<open>i\<close> of the metadata its name, and the index holds the embeddings of the documents
  in this order. A second run, started on what a successful first run left behind and
  with the directory listed in another order, builds the same store again and leaves
  every file as the first run wrote it.
\<close>

theorem build_row_order:
  assumes "distinct (map fst (data_dir fs))"
    and "mset (data_dir fs2) = mset (data_dir fs)"
    and "files fs2 = files fs"
  shows "snd (build encode fs2) = snd (build encode fs) \<and>
         files (fst (build encode fs2)) = files (fst (build encode fs)) \<and>
         corpus_paths fs2 = corpus_paths fs \<and>
         sorted_wrt (<) (corpus_paths fs) \<and>
         (\<forall>fs' index docs meta.
            build encode fs = (fs', Inr (index, docs, meta)) \<longrightarrow>
              (\<exists>rows.
                 sorted_wrt (<) (map fst rows) \<and>
                 set rows = {(n, strip t) | n t.
                               (n, Text t) \<in> set (data_dir fs) \<and> match_txt n \<and> strip t \<noteq> []} \<and>
                 docs = JList (map (\<lambda>r. JStr (snd r)) rows) \<and>
                 meta = JList (map (\<lambda>r. JDict [(cp ''source'', JStr (fst r))]) rows) \<and>
                 index = index_add (IndexFlatIP (shape1 (encode (map snd rows))))
                           (encode (map snd rows)))) \<and>
         (\<forall>fs1 st.
            build encode fs = (fs1, Inr st) \<longrightarrow>
              build encode (fs1\<lparr>data_dir := data_dir fs2\<rparr>) =
                (fs1\<lparr>data_dir := data_dir fs2\<rparr>, Inr st))"
proof (intro conjI)
  have paths: "sort (glob_txt DATA_DIR (data_dir fs2)) = sort (glob_txt DATA_DIR (data_dir fs))"
    using glob_txt_mset [OF assms(2)] by (rule sort_mset_cong)
  then show "corpus_paths fs2 = corpus_paths fs"
    by (simp add: corpus_paths_def)
  have reads: "\<forall>p. read_text (data_dir fs2) p = read_text (data_dir fs) p"
    using read_text_perm [OF assms(1,2)] by simp
  show "\<forall>fs1 st.
          build encode fs = (fs1, Inr st) \<longrightarrow>
            build encode (fs1\<lparr>data_dir := data_dir fs2\<rparr>) =
              (fs1\<lparr>data_dir := data_dir fs2\<rparr>, Inr st)"
    using build_again [OF _ paths reads] by blast
  have "fs2 = fs\<lparr>data_dir := data_dir fs2\<rparr>"
    using assms(3) by simp
  with reads show "snd (build encode fs2) = snd (build encode fs)"
    and "files (fst (build encode fs2)) = files (fst (build encode fs))"
    using build_listing_order [OF paths, of encode] by metis+
  show "sorted_wrt (<) (corpus_paths fs)"
    using assms(1) by (rule corpus_paths_strict)
  show "\<forall>fs' index docs meta.
          build encode fs = (fs', Inr (index, docs, meta)) \<longrightarrow>
            (\<exists>rows.
               sorted_wrt (<) (map fst rows) \<and>
               set rows = {(n, strip t) | n t.
                             (n, Text t) \<in> set (data_dir fs) \<and> match_txt n \<and> strip t \<noteq> []} \<and>
               docs = JList (map (\<lambda>r. JStr (snd r)) rows) \<and>
               meta = JList (map (\<lambda>r. JDict [(cp ''source'', JStr (fst r))]) rows) \<and>
               index = index_add (IndexFlatIP (shape1 (encode (map snd rows))))
                         (encode (map snd rows)))"
  proof (intro allI impI)
    fix fs' index docs meta
    assume ok: "build encode fs = (fs', Inr (index, docs, meta))"
    let ?kept = "filter (\<lambda>p. stripped (data_dir fs) p \<noteq> []) (corpus_paths fs)"
    let ?rows = "map (\<lambda>p. (basename p, stripped (data_dir fs) p)) ?kept"
    let ?docs = "filter (\<lambda>t. t \<noteq> []) (map (stripped (data_dir fs)) (corpus_paths fs))"
    obtain fs0 where mk: "makedirs fs OUT_DIR = Inr fs0"
      using ok by (cases "makedirs fs OUT_DIR") (simp_all add: build_no_directory)
    have built: "meta = JList (map (\<lambda>p. JDict [(cp ''source'', JStr (basename p))]) ?kept)"
      "docs = JList (map JStr ?docs)"
      "index = index_add (IndexFlatIP (shape1 (encode ?docs))) (encode ?docs)"
      using ok unfolding build_unfold [OF mk] Let_def by (auto split: if_splits)
    have texts: "?docs = map snd ?rows"
      by (simp add: filter_map comp_def)
    have "sorted_wrt (<) (map fst ?rows)"
      using corpus_names_strict [OF assms(1), of "\<lambda>p. stripped (data_dir fs) p \<noteq> []"]
      by (simp add: comp_def)
    moreover have "set ?rows = {(n, strip t) | n t.
                             (n, Text t) \<in> set (data_dir fs) \<and> match_txt n \<and> strip t \<noteq> []}"
      using assms(1) by (rule kept_rows)
    moreover have "docs = JList (map (\<lambda>r. JStr (snd r)) ?rows)"
      unfolding built(2) texts by (simp add: comp_def)
    moreover have "meta = JList (map (\<lambda>r. JDict [(cp ''source'', JStr (fst r))]) ?rows)"
      unfolding built(1) by (simp add: comp_def)
    moreover have "index = index_add (IndexFlatIP (shape1 (encode (map snd ?rows))))
                         (encode (map snd ?rows))"
      unfolding built(3) texts ..
    ultimately show "\<exists>rows.
               sorted_wrt (<) (map fst rows) \<and>
               set rows = {(n, strip t) | n t.
                             (n, Text t) \<in> set (data_dir fs) \<and> match_txt n \<and> strip t \<noteq> []} \<and>
               docs = JList (map (\<lambda>r. JStr (snd r)) rows) \<and>
               meta = JList (map (\<lambda>r. JDict [(cp ''source'', JStr (fst r))]) rows) \<and>
               index = index_add (IndexFlatIP (shape1 (encode (map snd rows))))
                         (encode (map snd rows))"
      by blast
  qed
qed

lemma corpus_two_build: "build len_encode corpus_two = (corpus_two_built, Inr two_docs)"
proof -
  have fl: "files corpus_two = Map.empty"
    by (simp add: corpus_two_def)
  then have mk: "makedirs corpus_two OUT_DIR = Inr (corpus_two\<lparr>files := [OUT_DIR \<mapsto> Directory]\<rparr>)"
    by (simp add: makedirs_def)
  have dd: "data_dir corpus_two =
      [(cp ''b.txt'', Text (cp '' hello '')), (cp ''a.txt'', Text (cp ''doc''))]"
    by (simp add: corpus_two_def)
  have paths: "corpus_paths corpus_two = [cp ''data/a.txt'', cp ''data/b.txt'']"
    by (simp add: sample_order corpus_paths_def dd glob_txt_def sample_match sample_join)
  have "read_text (data_dir corpus_two) (cp ''data/a.txt'') = Inr (cp ''doc'')"
    "read_text (data_dir corpus_two) (cp ''data/b.txt'') = Inr (cp '' hello '')"
    using sample_distinct by (simp_all add: read_text_def dd sample_join)
  moreover have "strip (cp ''doc'') = cp ''doc''"
    unfolding cp_doc by (simp add: strip_def isspace_def)
  ultimately have rd: "readable (data_dir corpus_two) (cp ''data/a.txt'')"
    "readable (data_dir corpus_two) (cp ''data/b.txt'')"
    "stripped (data_dir corpus_two) (cp ''data/a.txt'') = cp ''doc''"
    "stripped (data_dir corpus_two) (cp ''data/b.txt'') = cp ''hello''"
    by (simp_all add: readable_def stripped_def strip_hello_padded)
  have ne: "cp ''doc'' \<noteq> []" "cp ''hello'' \<noteq> []"
    by (simp_all add: cp_def)
  have base: "basename (cp ''data/a.txt'') = cp ''a.txt''"
    unfolding sample_names by (simp add: basename_def)
  have "len_encode [cp ''doc'', cp ''hello''] = [[3], [5]]"
    by (simp add: len_encode_def cp_def)
  then have idx: "index_add (IndexFlatIP (shape1 (len_encode [cp ''doc'', cp ''hello''])))
                    (len_encode [cp ''doc'', cp ''hello'']) = \<lparr>idx_d = 1, idx_xb = [[3], [5]]\<rparr>"
    by (simp add: shape1_def IndexFlatIP_def index_add_def)
  show ?thesis
    unfolding build_unfold [OF mk]
    by (simp add: Let_def paths rd ne base basename_b idx two_docs_def corpus_two_built_def
        artifact_paths_distinct [symmetric])
qed

theorem build_row_order_witness:
  "distinct (map fst (data_dir corpus_two)) \<and>
   mset (data_dir corpus_two_listed) = mset (data_dir corpus_two) \<and>
   data_dir corpus_two_listed \<noteq> data_dir corpus_two \<and>
   files corpus_two_listed = files corpus_two \<and>
   build len_encode corpus_two = (corpus_two_built, Inr two_docs) \<and>
   snd (build len_encode corpus_two_listed) = Inr two_docs \<and>
   files (fst (build len_encode corpus_two_listed)) = files corpus_two_built \<and>
   corpus_paths corpus_two_listed = corpus_paths corpus_two \<and>
   build len_encode (corpus_two_built\<lparr>data_dir := data_dir corpus_two_listed\<rparr>) =
     (corpus_two_built\<lparr>data_dir := data_dir corpus_two_listed\<rparr>, Inr two_docs)"
proof -
  have ne: "cp ''b.txt'' \<noteq> cp ''a.txt''"
    unfolding sample_names by simp
  have h1: "distinct (map fst (data_dir corpus_two))"
    using ne by (simp add: corpus_two_def)
  have h2: "mset (data_dir corpus_two_listed) = mset (data_dir corpus_two)"
    by (simp add: corpus_two_def corpus_two_listed_def add_mset_commute)
  have h3: "files corpus_two_listed = files corpus_two"
    by (simp add: corpus_two_def corpus_two_listed_def)
  have other: "data_dir corpus_two_listed \<noteq> data_dir corpus_two"
    using ne by (simp add: corpus_two_def corpus_two_listed_def)
  note inst = build_row_order [OF h1 h2 h3, of len_encode]
  have "snd (build len_encode corpus_two_listed) = Inr two_docs"
    "files (fst (build len_encode corpus_two_listed)) = files corpus_two_built"
    "corpus_paths corpus_two_listed = corpus_paths corpus_two"
    using inst by (simp_all add: corpus_two_build)
  moreover have "build len_encode (corpus_two_built\<lparr>data_dir := data_dir corpus_two_listed\<rparr>) =
     (corpus_two_built\<lparr>data_dir := data_dir corpus_two_listed\<rparr>, Inr two_docs)"
    using inst corpus_two_build by blast
  ultimately show ?thesis
    using h1 h2 h3 other corpus_two_build by blast
qed

end
